theory Spec2Isabelle
  imports Complex_Main
begin

unbundle bit_operations_syntax

section \<open>Data model\<close>

text \<open>
  A Python \<open>bytes\<close> value is a list of 8-bit characters; a Python \<open>str\<close> is a list of code
  points. Python admits every code point below \<open>0x110000\<close> in a \<open>str\<close>, the surrogates
  \<open>0xD800..0xDFFF\<close> included; only the UTF-8 codec refuses them.
\<close>

type_synonym bytes = "char list"
type_synonym pystr = "nat list"

definition str_of :: "string \<Rightarrow> pystr" where
  "str_of s = map of_char s"

text \<open>
  The exceptions that the signing module and the library calls it makes can raise.
  \<open>BadToken\<close> carries its message and the offending token.
\<close>

datatype error =
    BadToken string pystr
  | ValueError
  | BinasciiError
  | UnicodeDecodeError
  | UnicodeEncodeError
  | OverflowError


text \<open>
  A digest constructor of \<open>hashlib\<close>: the one-shot digest of a byte string and the block
  size that \<open>hmac\<close> reads from it.
\<close>

record algorithm =
  digest :: "bytes \<Rightarrow> bytes"
  block_size :: nat

datatype byteorder = Big | Little

record Signer =
  key :: pystr
  sep :: pystr
  byte_order :: byteorder
  salt :: pystr
  algorithm :: algorithm

section \<open>The separator check\<close>

text \<open>
  \<open>_UNSAFE_SEP = re.compile(r"^[A-z0-9-_=]*$")\<close>. The character class is the range
  \<open>A-z\<close> (code points 65 to 122), the range \<open>0-9\<close>, and the three literals \<open>-\<close>, \<open>_\<close>
  and \<open>=\<close>.
\<close>

definition unsafe_class :: "nat \<Rightarrow> bool" where
  "unsafe_class c \<longleftrightarrow>
     (65 \<le> c \<and> c \<le> 122) \<or> (48 \<le> c \<and> c \<le> 57) \<or> c = 45 \<or> c = 95 \<or> c = 61"

text \<open>
  \<open>_UNSAFE_SEP.match(sep)\<close>: the starred class is greedy and is followed by \<open>$\<close> alone, so
  the match succeeds exactly when the run of class characters at the start of the string
  ends where \<open>$\<close> holds. Without the MULTILINE flag \<open>$\<close> holds at the end of the string and
  just before a newline that is the last character.
\<close>

definition dollar_at :: "pystr \<Rightarrow> bool" where
  "dollar_at rest \<longleftrightarrow> rest = [] \<or> rest = [10]"

definition UNSAFE_SEP_match :: "pystr \<Rightarrow> bool" where
  "UNSAFE_SEP_match s \<longleftrightarrow> dollar_at (dropWhile unsafe_class s)"

definition default_salt :: pystr where
  "default_salt = str_of ''mixbag.security.signing.Signer''"

text \<open>
  \<open>Signer.__init__\<close>. \<open>x or d\<close> takes \<open>d\<close> when \<open>x\<close> is \<open>None\<close> or empty. The byte order is
  documented as \<open>big | little\<close>.
\<close>

definition Signer_init ::
  "pystr \<Rightarrow> pystr \<Rightarrow> byteorder option \<Rightarrow> pystr option \<Rightarrow> algorithm \<Rightarrow> error + Signer" where
  "Signer_init k sp bo sl alg =
     (if UNSAFE_SEP_match sp then Inl ValueError
      else Inr \<lparr> key = k, sep = sp,
                 byte_order = (case bo of None \<Rightarrow> Big | Some b \<Rightarrow> b),
                 salt = (case sl of None \<Rightarrow> default_salt
                         | Some x \<Rightarrow> if x = [] then default_salt else x),
                 algorithm = alg \<rparr>)"

section \<open>Codec: URL-safe base64 without padding\<close>

text \<open>
  \<open>binascii.b2a_base64\<close> (with \<open>newline=False\<close>, as \<open>base64.b64encode\<close> calls it): three
  bytes become four characters of the standard table; a last group of one or two bytes is
  completed with \<open>=\<close>.
\<close>

definition table_b2a_base64 :: "char list" where
  "table_b2a_base64 =
     ''ABCDEFGHIJKLMNOPQRSTUVWXYZabcdefghijklmnopqrstuvwxyz0123456789+/''"

definition b2a :: "nat \<Rightarrow> char" where
  "b2a n = table_b2a_base64 ! n"

fun b2a_base64 :: "bytes \<Rightarrow> bytes" where
  "b2a_base64 (a # b # c # rest) =
     (let x = (of_char a :: nat); y = (of_char b :: nat); z = (of_char c :: nat)
      in [b2a (x div 4), b2a ((x mod 4) * 16 + y div 16),
          b2a ((y mod 16) * 4 + z div 64), b2a (z mod 64)] @ b2a_base64 rest)"
| "b2a_base64 [a, b] =
     (let x = (of_char a :: nat); y = (of_char b :: nat)
      in [b2a (x div 4), b2a ((x mod 4) * 16 + y div 16), b2a ((y mod 16) * 4), CHR ''=''])"
| "b2a_base64 [a] =
     (let x = (of_char a :: nat)
      in [b2a (x div 4), b2a ((x mod 4) * 16), CHR ''='', CHR ''=''])"
| "b2a_base64 [] = []"

text \<open>\<open>base64.urlsafe_b64encode\<close> translates \<open>+\<close> to \<open>-\<close> and \<open>/\<close> to \<open>_\<close>.\<close>

definition urlsafe_encode_translation :: "char \<Rightarrow> char" where
  "urlsafe_encode_translation c =
     (if c = CHR ''+'' then CHR ''-'' else if c = CHR ''/'' then CHR ''_'' else c)"

definition urlsafe_decode_translation :: "char \<Rightarrow> char" where
  "urlsafe_decode_translation c =
     (if c = CHR ''-'' then CHR ''+'' else if c = CHR ''_'' then CHR ''/'' else c)"

definition urlsafe_b64encode :: "bytes \<Rightarrow> bytes" where
  "urlsafe_b64encode v = map urlsafe_encode_translation (b2a_base64 v)"

text \<open>\<open>bytes.strip(b"=")\<close> removes the leading and the trailing \<open>=\<close>.\<close>

definition strip_eq :: "bytes \<Rightarrow> bytes" where
  "strip_eq v =
     rev (dropWhile (\<lambda>c. c = CHR ''='') (rev (dropWhile (\<lambda>c. c = CHR ''='') v)))"

definition b64_encode :: "bytes \<Rightarrow> bytes" where
  "b64_encode v = strip_eq (urlsafe_b64encode v)"

text \<open>
  \<open>binascii.a2b_base64\<close> in its default, non-strict mode, which is how
  \<open>base64.urlsafe_b64decode\<close> reaches it. A character outside the table is skipped; a
  \<open>=\<close> ends the input once it completes a quad that holds at least two characters; input
  that ends inside a quad is an error.
\<close>

fun index_of :: "'a \<Rightarrow> 'a list \<Rightarrow> nat option" where
  "index_of x [] = None"
| "index_of x (y # ys) = (if x = y then Some 0 else map_option Suc (index_of x ys))"

definition table_a2b_base64 :: "char \<Rightarrow> nat option" where
  "table_a2b_base64 c = index_of c table_b2a_base64"

fun a2b_loop :: "nat \<Rightarrow> nat \<Rightarrow> nat \<Rightarrow> bytes \<Rightarrow> bytes \<Rightarrow> error + bytes" where
  "a2b_loop quad_pos leftchar pads out [] =
     (if quad_pos \<noteq> 0 then Inl BinasciiError else Inr out)"
| "a2b_loop quad_pos leftchar pads out (c # cs) =
     (if c = CHR ''='' then
        (if quad_pos \<ge> 2 \<and> quad_pos + (pads + 1) \<ge> 4 then Inr out
         else a2b_loop quad_pos leftchar (if quad_pos \<ge> 2 then pads + 1 else pads) out cs)
      else
        (case table_a2b_base64 c of
           None \<Rightarrow> a2b_loop quad_pos leftchar pads out cs
         | Some this_ch \<Rightarrow>
             (if quad_pos = 0 then a2b_loop 1 this_ch 0 out cs
              else if quad_pos = 1 then
                a2b_loop 2 (this_ch mod 16) 0
                  (out @ [char_of (leftchar * 4 + this_ch div 16)]) cs
              else if quad_pos = 2 then
                a2b_loop 3 (this_ch mod 4) 0
                  (out @ [char_of (leftchar * 16 + this_ch div 4)]) cs
              else
                a2b_loop 0 0 0 (out @ [char_of (leftchar * 64 + this_ch)]) cs)))"

definition a2b_base64 :: "bytes \<Rightarrow> error + bytes" where
  "a2b_base64 v = a2b_loop 0 0 0 [] v"

definition urlsafe_b64decode :: "bytes \<Rightarrow> error + bytes" where
  "urlsafe_b64decode v = a2b_base64 (map urlsafe_decode_translation v)"

text \<open>\<open>pad = b"=" * (-len(value) % 4)\<close>, with Python's \<open>%\<close> (the sign of the divisor).\<close>

definition b64_decode :: "bytes \<Rightarrow> error + bytes" where
  "b64_decode v =
     (let pad = replicate (nat ((- int (length v)) mod 4)) (CHR ''='')
      in urlsafe_b64decode (v @ pad))"

section \<open>Codec: UTF-8\<close>

text \<open>
  \<open>str.encode()\<close>: UTF-8 with strict error handling, which raises on a surrogate.
\<close>

definition utf8_char :: "nat \<Rightarrow> bytes" where
  "utf8_char c =
     (if c < 0x80 then [char_of c]
      else if c < 0x800 then [char_of (0xC0 + c div 64), char_of (0x80 + c mod 64)]
      else if c < 0x10000 then
        [char_of (0xE0 + c div 4096), char_of (0x80 + c div 64 mod 64),
         char_of (0x80 + c mod 64)]
      else
        [char_of (0xF0 + c div 262144), char_of (0x80 + c div 4096 mod 64),
         char_of (0x80 + c div 64 mod 64), char_of (0x80 + c mod 64)])"

definition encodable_char :: "nat \<Rightarrow> bool" where
  "encodable_char c \<longleftrightarrow> c < 0x110000 \<and> \<not> (0xD800 \<le> c \<and> c \<le> 0xDFFF)"

fun utf8_encode :: "pystr \<Rightarrow> error + bytes" where
  "utf8_encode [] = Inr []"
| "utf8_encode (c # cs) =
     (if \<not> encodable_char c then Inl UnicodeEncodeError
      else case utf8_encode cs of
             Inl e \<Rightarrow> Inl e
           | Inr bs \<Rightarrow> Inr (utf8_char c @ bs))"

text \<open>
  \<open>bytes.decode()\<close>: UTF-8 with strict error handling. The decoder accepts exactly the
  well-formed byte sequences: no overlong form, no surrogate, nothing above \<open>0x10FFFF\<close>.
\<close>

definition is_cont :: "nat \<Rightarrow> bool" where
  "is_cont b \<longleftrightarrow> 0x80 \<le> b \<and> b \<le> 0xBF"

definition second_ok :: "nat \<Rightarrow> nat \<Rightarrow> bool" where
  "second_ok lead b =
     (if lead = 0xE0 then 0xA0 \<le> b \<and> b \<le> 0xBF
      else if lead = 0xED then 0x80 \<le> b \<and> b \<le> 0x9F
      else if lead = 0xF0 then 0x90 \<le> b \<and> b \<le> 0xBF
      else if lead = 0xF4 then 0x80 \<le> b \<and> b \<le> 0x8F
      else is_cont b)"

text \<open>One code point from the front of the input, with the bytes that follow it.\<close>

definition utf8_next :: "bytes \<Rightarrow> (nat \<times> bytes) option" where
  "utf8_next bs =
     (case map of_char bs of
        [] \<Rightarrow> None
      | x # xs \<Rightarrow>
          if x < 0x80 then Some (x, drop 1 bs)
          else if 0xC2 \<le> x \<and> x \<le> 0xDF then
            (case xs of
               b1 # _ \<Rightarrow>
                 if is_cont b1 then Some ((x - 0xC0) * 64 + (b1 - 0x80), drop 2 bs)
                 else None
             | _ \<Rightarrow> None)
          else if 0xE0 \<le> x \<and> x \<le> 0xEF then
            (case xs of
               b1 # b2 # _ \<Rightarrow>
                 if second_ok x b1 \<and> is_cont b2
                 then Some ((x - 0xE0) * 4096 + (b1 - 0x80) * 64 + (b2 - 0x80), drop 3 bs)
                 else None
             | _ \<Rightarrow> None)
          else if 0xF0 \<le> x \<and> x \<le> 0xF4 then
            (case xs of
               b1 # b2 # b3 # _ \<Rightarrow>
                 if second_ok x b1 \<and> is_cont b2 \<and> is_cont b3
                 then Some ((x - 0xF0) * 262144 + (b1 - 0x80) * 4096 + (b2 - 0x80) * 64
                            + (b3 - 0x80), drop 4 bs)
                 else None
             | _ \<Rightarrow> None)
          else None)"

function utf8_decode :: "bytes \<Rightarrow> error + pystr" where
  "utf8_decode bs =
     (if bs = [] then Inr []
      else case utf8_next bs of
             None \<Rightarrow> Inl UnicodeDecodeError
           | Some (c, rest) \<Rightarrow>
               (case utf8_decode rest of
                  Inl e \<Rightarrow> Inl e
                | Inr cs \<Rightarrow> Inr (c # cs)))"
  by pat_completeness auto

lemma utf8_next_shorter: "utf8_next bs = Some (c, rest) \<Longrightarrow> length rest < length bs"
  by (auto simp: utf8_next_def split: list.splits if_splits)

termination utf8_decode
  by (relation "measure length") (auto dest: utf8_next_shorter)

declare utf8_decode.simps [simp del]

section \<open>Codec: fixed-width integers and decimal strings\<close>

text \<open>
  \<open>int.to_bytes(length, byteorder)\<close> (unsigned): raises \<open>OverflowError\<close> on a negative
  number and on one that does not fit. \<open>int.from_bytes(bytes, byteorder)\<close> reads any number
  of bytes.
\<close>

fun to_bytes_big :: "nat \<Rightarrow> nat \<Rightarrow> bytes" where
  "to_bytes_big 0 n = []"
| "to_bytes_big (Suc k) n = to_bytes_big k (n div 256) @ [char_of (n mod 256)]"

definition int_to_bytes :: "int \<Rightarrow> nat \<Rightarrow> byteorder \<Rightarrow> error + bytes" where
  "int_to_bytes i len order =
     (if i < 0 then Inl OverflowError
      else if nat i \<ge> 256 ^ len then Inl OverflowError
      else Inr (case order of
                  Big \<Rightarrow> to_bytes_big len (nat i)
                | Little \<Rightarrow> rev (to_bytes_big len (nat i))))"

definition from_bytes_big :: "bytes \<Rightarrow> nat" where
  "from_bytes_big bs = foldl (\<lambda>acc b. acc * 256 + of_char b) 0 bs"

definition int_from_bytes :: "bytes \<Rightarrow> byteorder \<Rightarrow> int" where
  "int_from_bytes bs order =
     int (case order of Big \<Rightarrow> from_bytes_big bs | Little \<Rightarrow> from_bytes_big (rev bs))"

text \<open>The decimal string of an integer, as an f-string formats it.\<close>

fun digits :: "nat \<Rightarrow> pystr" where
  "digits n = (if n < 10 then [48 + n] else digits (n div 10) @ [48 + n mod 10])"

declare digits.simps [simp del]

definition str_int :: "int \<Rightarrow> pystr" where
  "str_int i = (if i < 0 then 45 # digits (nat (- i)) else digits (nat i))"

section \<open>Salted HMAC and digest comparison\<close>

text \<open>
  \<open>hmac.new(key, msg, digestmod)\<close> builds the HMAC object; its \<open>digest()\<close> is the keyed
  hash of RFC 2104 over the digest constructor: a key longer than the block is hashed
  first, the key is filled with zero bytes to the block size, and the inner and the outer
  hash take the key xor-ed with \<open>0x36\<close> and with \<open>0x5C\<close>. A block size below 16 is replaced
  by 64.
\<close>

datatype HMAC = HMAC_new bytes bytes algorithm

definition xor_byte :: "nat \<Rightarrow> char \<Rightarrow> char" where
  "xor_byte n c = char_of ((of_char c :: nat) XOR n)"

fun hmac_digest :: "HMAC \<Rightarrow> bytes" where
  "hmac_digest (HMAC_new k msg alg) =
     (let blocksize = (if block_size alg < 16 then 64 else block_size alg);
          k1 = (if length k > blocksize then digest alg k else k);
          k2 = k1 @ replicate (blocksize - length k1) (CHR 0x00)
      in digest alg (map (xor_byte 0x5C) k2 @ digest alg (map (xor_byte 0x36) k2 @ msg)))"

declare hmac_digest.simps [simp del]

text \<open>\<open>salted_hmac(salt, value, key, algorithm=...)\<close> of \<open>mixbag.security.secrets\<close>.\<close>

definition salted_hmac :: "pystr \<Rightarrow> pystr \<Rightarrow> pystr \<Rightarrow> algorithm \<Rightarrow> error + HMAC" where
  "salted_hmac sl v k alg =
     (case utf8_encode sl of
        Inl e \<Rightarrow> Inl e
      | Inr salt_bytes \<Rightarrow>
          (case utf8_encode k of
             Inl e \<Rightarrow> Inl e
           | Inr key_bytes \<Rightarrow>
               (let derived_key = digest alg (salt_bytes @ key_bytes)
                in case utf8_encode v of
                     Inl e \<Rightarrow> Inl e
                   | Inr msg \<Rightarrow> Inr (HMAC_new derived_key msg alg))))"

text \<open>\<open>compare_digest(value1, value2)\<close>: both strings are encoded, then compared.\<close>

definition compare_digest :: "pystr \<Rightarrow> pystr \<Rightarrow> error + bool" where
  "compare_digest value1 value2 =
     (case utf8_encode value1 of
        Inl e \<Rightarrow> Inl e
      | Inr b1 \<Rightarrow>
          (case utf8_encode value2 of
             Inl e \<Rightarrow> Inl e
           | Inr b2 \<Rightarrow> Inr (b1 = b2)))"

section \<open>Timestamp validation\<close>

text \<open>
  \<open>MaxAge = Union[timedelta, int, float]\<close>. A \<open>timedelta\<close> is represented by the number
  that its \<open>total_seconds()\<close> returns. An \<open>int\<close> or a finite \<open>float\<close> is a rational number,
  and Python compares an \<open>int\<close> with a \<open>float\<close> by exact value.
\<close>

datatype MaxAge = Timedelta (total_seconds: rat) | Number rat

text \<open>\<open>is_valid_timestamp\<close>; \<open>now\<close> is \<open>int(time.time())\<close>.\<close>

definition is_valid_timestamp :: "int \<Rightarrow> int \<Rightarrow> MaxAge option \<Rightarrow> bool" where
  "is_valid_timestamp now timestamp max_age =
     (case max_age of
        None \<Rightarrow> True
      | Some m \<Rightarrow>
          (let max_age' = (case m of Timedelta td \<Rightarrow> total_seconds m | Number n \<Rightarrow> n);
               delta = \<bar>now - timestamp\<bar>
           in of_int delta < max_age'))"

section \<open>Strings: membership, split and join\<close>

text \<open>\<open>sub in s\<close>: \<open>sub\<close> occurs in \<open>s\<close> as a contiguous substring.\<close>

fun starts_with :: "'a list \<Rightarrow> 'a list \<Rightarrow> bool" where
  "starts_with [] s = True"
| "starts_with (p # ps) [] = False"
| "starts_with (p # ps) (x # xs) = (p = x \<and> starts_with ps xs)"

fun str_contains :: "pystr \<Rightarrow> pystr \<Rightarrow> bool" where
  "str_contains sub [] = (sub = [])"
| "str_contains sub (x # xs) = (starts_with sub (x # xs) \<or> str_contains sub xs)"

text \<open>
  \<open>s.split(sp)\<close>: the pieces between the occurrences of \<open>sp\<close>, found from the left and not
  overlapping. An empty separator raises \<open>ValueError\<close>. \<open>split_from\<close> scans the rest of the
  string, with the characters of the current piece in reverse.
\<close>

function split_from :: "pystr \<Rightarrow> pystr \<Rightarrow> pystr \<Rightarrow> pystr list" where
  "split_from sp piece s =
     (if s = [] then [rev piece]
      else if sp \<noteq> [] \<and> starts_with sp s
        then rev piece # split_from sp [] (drop (length sp) s)
      else split_from sp (hd s # piece) (tl s))"
  by pat_completeness auto
termination
  by (relation "measure (\<lambda>(sp, piece, s). length s)") auto

declare split_from.simps [simp del]

definition str_split :: "pystr \<Rightarrow> pystr \<Rightarrow> error + pystr list" where
  "str_split s sp = (if sp = [] then Inl ValueError else Inr (split_from sp [] s))"

fun str_join :: "pystr \<Rightarrow> pystr list \<Rightarrow> pystr" where
  "str_join sp [] = []"
| "str_join sp [x] = x"
| "str_join sp (x # xs) = x @ sp @ str_join sp xs"

section \<open>The Signer's methods\<close>

text \<open>\<open>Signer.signature\<close>: the signed text is \<open>f"{value}.{timestamp}"\<close>.\<close>

definition signature :: "Signer \<Rightarrow> pystr \<Rightarrow> int \<Rightarrow> error + pystr" where
  "signature self v timestamp =
     (let unsigned_value = v @ [46] @ str_int timestamp
      in case salted_hmac (salt self) unsigned_value (key self) (algorithm self) of
           Inl e \<Rightarrow> Inl e
         | Inr h \<Rightarrow> utf8_decode (b64_encode (hmac_digest h)))"

definition encode_int :: "Signer \<Rightarrow> int \<Rightarrow> error + bytes" where
  "encode_int self i =
     (case int_to_bytes i 8 (byte_order self) of
        Inl e \<Rightarrow> Inl e
      | Inr bs \<Rightarrow> Inr (b64_encode bs))"

definition decode_int :: "Signer \<Rightarrow> bytes \<Rightarrow> error + int" where
  "decode_int self x =
     (case b64_decode x of
        Inl e \<Rightarrow> Inl e
      | Inr bs \<Rightarrow> Inr (int_from_bytes bs (byte_order self)))"

definition encode_value :: "pystr \<Rightarrow> error + bytes" where
  "encode_value v =
     (case utf8_encode v of
        Inl e \<Rightarrow> Inl e
      | Inr bs \<Rightarrow> Inr (b64_encode bs))"

definition decode_value :: "bytes \<Rightarrow> error + pystr" where
  "decode_value x =
     (case b64_decode x of
        Inl e \<Rightarrow> Inl e
      | Inr bs \<Rightarrow> utf8_decode bs)"

text \<open>
  \<open>timestamp or int(time.time())\<close>: the clock is taken when the argument is \<open>None\<close> and
  also when it is \<open>0\<close>; \<open>now\<close> is \<open>int(time.time())\<close>.
\<close>

definition timestamp_or_now :: "int option \<Rightarrow> int \<Rightarrow> int" where
  "timestamp_or_now timestamp now =
     (case timestamp of
        None \<Rightarrow> now
      | Some t \<Rightarrow> if t = 0 then now else t)"

text \<open>
  \<open>Signer.sign(value, timestamp=None)\<close>. The three parts are computed from left to
  right and joined by the separator.
\<close>

definition sign :: "Signer \<Rightarrow> int \<Rightarrow> pystr \<Rightarrow> int option \<Rightarrow> error + pystr" where
  "sign self now v timestamp =
     (let timestamp' = timestamp_or_now timestamp now
      in case encode_value v of
           Inl e \<Rightarrow> Inl e
         | Inr ev \<Rightarrow>
             (case utf8_decode ev of
                Inl e \<Rightarrow> Inl e
              | Inr part1 \<Rightarrow>
                  (case encode_int self timestamp' of
                     Inl e \<Rightarrow> Inl e
                   | Inr et \<Rightarrow>
                       (case utf8_decode et of
                          Inl e \<Rightarrow> Inl e
                        | Inr part2 \<Rightarrow>
                            (case signature self v timestamp' of
                               Inl e \<Rightarrow> Inl e
                             | Inr part3 \<Rightarrow>
                                 Inr (str_join (sep self) [part1, part2, part3]))))))"

text \<open>
  \<open>Signer.validate(token, max_age=..., timestamp_validator=..., signature_validator=...)\<close>.
  Only the unpacking of \<open>token.split(self.sep)\<close> is inside the \<open>try\<close>; the \<open>ValueError\<close> of a
  split that does not give three parts becomes \<open>BadToken\<close>. \<open>validate_calls\<close> returns, with
  the outcome, the calls made to the two validators, in order.
\<close>

datatype validator_call =
    TimestampValidatorCall int "MaxAge option"
  | SignatureValidatorCall pystr pystr

definition validate_calls ::
  "Signer \<Rightarrow> pystr \<Rightarrow> MaxAge option \<Rightarrow> (int \<Rightarrow> MaxAge option \<Rightarrow> bool) \<Rightarrow>
   (pystr \<Rightarrow> pystr \<Rightarrow> error + bool) \<Rightarrow> validator_call list \<times> (error + pystr)" where
  "validate_calls self token max_age timestamp_validator signature_validator =
     (if \<not> str_contains (sep self) token
      then ([], Inl (BadToken ''Separator not found in token'' token))
      else case str_split token (sep self) of
        Inl e \<Rightarrow> ([], Inl (BadToken ''Invalid token structure'' token))
      | Inr [encoded_value, encoded_timestamp, sig] \<Rightarrow>
          (case utf8_encode encoded_timestamp of
             Inl e \<Rightarrow> ([], Inl e)
           | Inr et \<Rightarrow>
          (case decode_int self et of
             Inl e \<Rightarrow> ([], Inl e)
           | Inr timestamp \<Rightarrow>
          (case utf8_encode encoded_value of
             Inl e \<Rightarrow> ([], Inl e)
           | Inr ev \<Rightarrow>
          (case decode_value ev of
             Inl e \<Rightarrow> ([], Inl e)
           | Inr v \<Rightarrow>
               (let c1 = TimestampValidatorCall timestamp max_age in
                if \<not> timestamp_validator timestamp max_age
                then ([c1], Inl (BadToken ''Token has expired'' token))
                else case signature self v timestamp of
                  Inl e \<Rightarrow> ([c1], Inl e)
                | Inr expected \<Rightarrow>
                    (let c2 = SignatureValidatorCall sig expected in
                     case signature_validator sig expected of
                       Inl e \<Rightarrow> ([c1, c2], Inl e)
                     | Inr ok \<Rightarrow>
                         if \<not> ok
                         then ([c1, c2], Inl (BadToken ''Signatures do not match'' token))
                         else ([c1, c2], Inr v)))))))
      | Inr parts \<Rightarrow> ([], Inl (BadToken ''Invalid token structure'' token)))"

definition validate ::
  "Signer \<Rightarrow> pystr \<Rightarrow> MaxAge option \<Rightarrow> (int \<Rightarrow> MaxAge option \<Rightarrow> bool) \<Rightarrow>
   (pystr \<Rightarrow> pystr \<Rightarrow> error + bool) \<Rightarrow> error + pystr" where
  "validate self token max_age timestamp_validator signature_validator =
     snd (validate_calls self token max_age timestamp_validator signature_validator)"

section \<open>Auxiliary definitions\<close>

text \<open>
  The shape of a padded encoding: a body without \<open>=\<close>, made of table characters, then
  \<open>p\<close> padding characters, four characters to the group.
\<close>

definition b64_shape :: "bytes \<Rightarrow> bytes \<Rightarrow> nat \<Rightarrow> bool" where
  "b64_shape e body p \<longleftrightarrow> e = body @ replicate p (CHR ''='') \<and> CHR ''='' \<notin> set body
     \<and> p < 4 \<and> (length body + p) mod 4 = 0 \<and> set body \<subseteq> set table_b2a_base64"

text \<open>
  The URL-safe base64 alphabet with the padding character, \<open>[A-Za-z0-9_=-]\<close>, which is a
  part of the class that the separator check uses.
\<close>

definition base64url_pad_alphabet :: "nat \<Rightarrow> bool" where
  "base64url_pad_alphabet c \<longleftrightarrow>
     (65 \<le> c \<and> c \<le> 90) \<or> (97 \<le> c \<and> c \<le> 122) \<or> (48 \<le> c \<and> c \<le> 57)
     \<or> c = 95 \<or> c = 61 \<or> c = 45"

text \<open>
  The theorems hold for every digest constructor. The examples run the model on a small
  one, an eight-bit additive checksum with a block of 64 bytes, and on the signer of the
  test suite, \<open>Signer(key="fake")\<close>, built over it.
\<close>

definition checksum8 :: algorithm where
  "checksum8 = \<lparr> digest = (\<lambda>bs. [char_of (sum_list (map of_char bs) :: nat)]),
                 block_size = 64 \<rparr>"

definition fixture_signer :: Signer where
  "fixture_signer = \<lparr> key = str_of ''fake'', sep = str_of ''.'', byte_order = Big,
                      salt = default_salt, algorithm = checksum8 \<rparr>"

section \<open>Base64: decoding inverts encoding\<close>

lemma index_of_nth: "distinct xs \<Longrightarrow> n < length xs \<Longrightarrow> index_of (xs ! n) xs = Some n"
proof (induction xs arbitrary: n)
  case Nil
  then show ?case by simp
next
  case (Cons y ys)
  show ?case
  proof (cases n)
    case 0
    then show ?thesis by simp
  next
    case (Suc m)
    with Cons.prems have "ys ! m \<noteq> y" and "m < length ys" and "distinct ys"
      by auto
    with Cons.IH [of m] Suc show ?thesis by simp
  qed
qed

lemma table_distinct: "distinct table_b2a_base64"
  by (simp add: table_b2a_base64_def)

lemma table_length: "length table_b2a_base64 = 64"
  by (simp add: table_b2a_base64_def)

lemma a2b_b2a: "n < 64 \<Longrightarrow> table_a2b_base64 (b2a n) = Some n"
  by (simp add: table_a2b_base64_def b2a_def index_of_nth table_distinct table_length)

lemma b2a_in_table: "n < 64 \<Longrightarrow> b2a n \<in> set table_b2a_base64"
  by (simp add: b2a_def table_length)

lemma table_no_pad: "c \<in> set table_b2a_base64 \<Longrightarrow> c \<noteq> CHR ''='' \<and> c \<noteq> CHR ''-'' \<and> c \<noteq> CHR ''_''"
  by (auto simp: table_b2a_base64_def)

lemma b2a_not_pad: "n < 64 \<Longrightarrow> b2a n \<noteq> CHR ''=''"
  using b2a_in_table table_no_pad by blast


lemma sextets:
  fixes x y z :: nat
  assumes "x < 256" "y < 256" "z < 256"
  shows "x div 4 < 64" "(x mod 4) * 16 + y div 16 < 64" "(y mod 16) * 4 + z div 64 < 64"
    "z mod 64 < 64"
  using assms by auto

lemma regroup1:
  fixes x y :: nat
  assumes "y < 256"
  shows "x div 4 * 4 + (x mod 4 * 16 + y div 16) div 16 = x"
proof -
  have "y div 16 < 16" using assms by auto
  then have "(x mod 4 * 16 + y div 16) div 16 = x mod 4" by simp
  then show ?thesis by simp
qed

lemma regroup2:
  fixes x y z :: nat
  assumes "y < 256" "z < 256"
  shows "(x mod 4 * 16 + y div 16) mod 16 * 16 + (y mod 16 * 4 + z div 64) div 4 = y"
proof -
  have "y div 16 < 16" "z div 64 < 4" using assms by auto
  then have "(x mod 4 * 16 + y div 16) mod 16 = y div 16"
    and "(y mod 16 * 4 + z div 64) div 4 = y mod 16" by simp_all
  then show ?thesis by simp
qed

lemma regroup3:
  fixes y z :: nat
  assumes "z < 256"
  shows "(y mod 16 * 4 + z div 64) mod 4 * 64 + z mod 64 = z"
proof -
  have "z div 64 < 4" using assms by auto
  then have "(y mod 16 * 4 + z div 64) mod 4 = z div 64" by simp
  then show ?thesis by simp
qed


lemma of_char_less_256: "(of_char c :: nat) < 256"
proof -
  have "(of_char c :: nat) mod 256 = of_char c" by (rule of_char_mod_256)
  moreover have "(of_char c :: nat) mod 256 < 256" by simp
  ultimately show ?thesis by simp
qed

lemma a2b_step_quad:
  assumes "s0 < 64" "s1 < 64" "s2 < 64" "s3 < 64"
  shows "a2b_loop 0 0 0 out (b2a s0 # b2a s1 # b2a s2 # b2a s3 # cs)
         = a2b_loop 0 0 0 (out @ [char_of (s0 * 4 + s1 div 16),
             char_of (s1 mod 16 * 16 + s2 div 4), char_of (s2 mod 4 * 64 + s3)]) cs"
  using assms by (simp add: a2b_b2a b2a_not_pad)

lemma a2b_step_pair:
  assumes "s0 < 64" "s1 < 64" "s2 < 64"
  shows "a2b_loop 0 0 0 out [b2a s0, b2a s1, b2a s2, CHR ''='']
         = Inr (out @ [char_of (s0 * 4 + s1 div 16), char_of (s1 mod 16 * 16 + s2 div 4)])"
  using assms by (simp add: a2b_b2a b2a_not_pad)

lemma a2b_step_single:
  assumes "s0 < 64" "s1 < 64"
  shows "a2b_loop 0 0 0 out [b2a s0, b2a s1, CHR ''='', CHR ''='']
         = Inr (out @ [char_of (s0 * 4 + s1 div 16)])"
  using assms by (simp add: a2b_b2a b2a_not_pad)

lemma a2b_quad:
  fixes a b c :: char
  defines "x \<equiv> (of_char a :: nat)" and "y \<equiv> (of_char b :: nat)" and "z \<equiv> (of_char c :: nat)"
  shows "a2b_loop 0 0 0 out
           (b2a (x div 4) # b2a ((x mod 4) * 16 + y div 16) #
            b2a ((y mod 16) * 4 + z div 64) # b2a (z mod 64) # cs)
         = a2b_loop 0 0 0 (out @ [a, b, c]) cs"
proof -
  have lt: "x < 256" "y < 256" "z < 256"
    by (simp_all add: x_def y_def z_def of_char_less_256)
  have c: "char_of x = a" "char_of y = b" "char_of z = c"
    by (simp_all add: x_def y_def z_def)
  show ?thesis
    by (simp only: a2b_step_quad [OF sextets [OF lt]] regroup1 [OF lt(2)]
        regroup2 [OF lt(2,3)] regroup3 [OF lt(3)] c)
qed

lemma a2b_pair:
  fixes a b :: char
  defines "x \<equiv> (of_char a :: nat)" and "y \<equiv> (of_char b :: nat)"
  shows "a2b_loop 0 0 0 out
           [b2a (x div 4), b2a ((x mod 4) * 16 + y div 16), b2a ((y mod 16) * 4), CHR ''='']
         = Inr (out @ [a, b])"
proof -
  have lt: "x < 256" "y < 256" "(0::nat) < 256"
    by (simp_all add: x_def y_def of_char_less_256)
  have c: "char_of x = a" "char_of y = b"
    by (simp_all add: x_def y_def)
  have s: "x div 4 < 64" "(x mod 4) * 16 + y div 16 < 64" "(y mod 16) * 4 < 64"
    using sextets [OF lt] by simp_all
  have r2: "(x mod 4 * 16 + y div 16) mod 16 * 16 + (y mod 16 * 4) div 4 = y"
    using regroup2 [OF lt(2,3), of x] by simp
  show ?thesis
    by (simp only: a2b_step_pair [OF s] regroup1 [OF lt(2)] r2 c)
qed

lemma a2b_single:
  fixes a :: char
  defines "x \<equiv> (of_char a :: nat)"
  shows "a2b_loop 0 0 0 out [b2a (x div 4), b2a ((x mod 4) * 16), CHR ''='', CHR ''='']
         = Inr (out @ [a])"
proof -
  have lt: "x < 256" "(0::nat) < 256"
    by (simp_all add: x_def of_char_less_256)
  have c: "char_of x = a"
    by (simp add: x_def)
  have s: "x div 4 < 64" "(x mod 4) * 16 < 64"
    using sextets [OF lt(1) lt(2) lt(2)] by simp_all
  have r1: "x div 4 * 4 + (x mod 4 * 16) div 16 = x"
    using regroup1 [OF lt(2), of x] by simp
  show ?thesis
    by (simp only: a2b_step_single [OF s] r1 c)
qed

lemma a2b_loop_b2a_base64: "a2b_loop 0 0 0 out (b2a_base64 bs) = Inr (out @ bs)"
proof (induction bs arbitrary: out rule: b2a_base64.induct)
  case (1 a b c rest)
  show ?case
    by (simp add: Let_def a2b_quad "1.IH" del: a2b_loop.simps)
next
  case (2 a b)
  show ?case
    by (simp add: Let_def a2b_pair del: a2b_loop.simps)
next
  case (3 a)
  show ?case
    by (simp add: Let_def a2b_single del: a2b_loop.simps)
next
  case 4
  show ?case by simp
qed

lemma b2a_base64_chars: "c \<in> set (b2a_base64 bs) \<Longrightarrow> c \<in> set table_b2a_base64 \<or> c = CHR ''=''"
proof (induction bs rule: b2a_base64.induct)
  case (1 a b c' rest)
  have lt: "(of_char a :: nat) < 256" "(of_char b :: nat) < 256" "(of_char c' :: nat) < 256"
    by (rule of_char_less_256)+
  from "1.prems" "1.IH" sextets [OF lt] show ?case
    by (auto simp: Let_def b2a_in_table)
next
  case (2 a b)
  have lt: "(of_char a :: nat) < 256" "(of_char b :: nat) < 256" "(0::nat) < 256"
    by (simp_all add: of_char_less_256)
  from "2.prems" sextets [OF lt] show ?case
    by (auto simp: Let_def b2a_in_table)
next
  case (3 a)
  have lt: "(of_char a :: nat) < 256" "(0::nat) < 256"
    by (simp_all add: of_char_less_256)
  from "3.prems" sextets [OF lt(1) lt(2) lt(2)] show ?case
    by (auto simp: Let_def b2a_in_table)
next
  case 4
  then show ?case by simp
qed

lemma translation_inverse:
  "c \<in> set table_b2a_base64 \<or> c = CHR ''='' \<Longrightarrow>
   urlsafe_decode_translation (urlsafe_encode_translation c) = c"
  using table_no_pad [of c]
  by (auto simp: urlsafe_decode_translation_def urlsafe_encode_translation_def)

lemma urlsafe_decode_encode: "urlsafe_b64decode (urlsafe_b64encode bs) = Inr bs"
proof -
  have "map urlsafe_decode_translation (map urlsafe_encode_translation (b2a_base64 bs))
        = b2a_base64 bs"
    using b2a_base64_chars [of _ bs] translation_inverse
    by (simp add: map_idI)
  then show ?thesis
    by (simp add: urlsafe_b64decode_def urlsafe_b64encode_def a2b_base64_def
        a2b_loop_b2a_base64)
qed

lemma b2a_base64_shape: "\<exists>body p. b64_shape (b2a_base64 bs) body p"
proof (induction bs rule: b2a_base64.induct)
  case (1 a b c rest)
  then obtain body p where r: "b64_shape (b2a_base64 rest) body p"
    by blast
  have lt: "(of_char a :: nat) < 256" "(of_char b :: nat) < 256" "(of_char c :: nat) < 256"
    by (rule of_char_less_256)+
  define q where "q = [b2a (of_char a div 4), b2a ((of_char a mod 4) * 16 + of_char b div 16),
    b2a ((of_char b mod 16) * 4 + of_char c div 64), b2a (of_char c mod 64)]"
  have e: "b2a_base64 (a # b # c # rest) = q @ b2a_base64 rest"
    by (simp add: Let_def q_def)
  have q: "CHR ''='' \<notin> set q" "set q \<subseteq> set table_b2a_base64" "length q = 4"
    using sextets [OF lt] by (simp_all add: q_def b2a_not_pad [THEN not_sym] b2a_in_table)
  have "b64_shape (b2a_base64 (a # b # c # rest)) (q @ body) p"
    using r q unfolding e b64_shape_def by (auto simp: add.assoc)
  then show ?case by blast
next
  case (2 a b)
  have lt: "(of_char a :: nat) < 256" "(of_char b :: nat) < 256" "(0::nat) < 256"
    by (simp_all add: of_char_less_256)
  define q where "q = [b2a (of_char a div 4), b2a ((of_char a mod 4) * 16 + of_char b div 16),
    b2a ((of_char b mod 16) * 4)]"
  have e: "b2a_base64 [a, b] = q @ replicate 1 (CHR ''='')"
    by (simp add: Let_def q_def)
  have q: "CHR ''='' \<notin> set q" "set q \<subseteq> set table_b2a_base64" "length q = 3"
    using sextets [OF lt] by (simp_all add: q_def b2a_not_pad [THEN not_sym] b2a_in_table)
  have "b64_shape (b2a_base64 [a, b]) q 1"
    using q unfolding e b64_shape_def by simp
  then show ?case by blast
next
  case (3 a)
  have lt: "(of_char a :: nat) < 256" "(0::nat) < 256"
    by (simp_all add: of_char_less_256)
  define q where "q = [b2a (of_char a div 4), b2a ((of_char a mod 4) * 16)]"
  have e: "b2a_base64 [a] = q @ replicate 2 (CHR ''='')"
    by (simp add: Let_def q_def numeral_2_eq_2)
  have q: "CHR ''='' \<notin> set q" "set q \<subseteq> set table_b2a_base64" "length q = 2"
    using sextets [OF lt(1) lt(2) lt(2)] by (simp_all add: q_def b2a_not_pad [THEN not_sym] b2a_in_table)
  have "b64_shape (b2a_base64 [a]) q 2"
    using q unfolding e b64_shape_def by simp
  then show ?case by blast
next
  case 4
  have "b64_shape (b2a_base64 []) [] 0"
    by (simp add: b64_shape_def)
  then show ?case by blast
qed


lemma strip_eq_shape:
  assumes "CHR ''='' \<notin> set xs"
  shows "strip_eq (xs @ replicate p (CHR ''='')) = xs"
proof (cases "xs = []")
  case True
  have "dropWhile (\<lambda>c. c = CHR ''='') (replicate p (CHR ''='')) = []"
    by (simp add: dropWhile_eq_Nil_conv)
  with True show ?thesis by (simp add: strip_eq_def)
next
  case False
  let ?P = "\<lambda>c. c = CHR ''=''"
  from False assms have "\<not> ?P (hd xs)"
    by (metis hd_in_set)
  with False have 1: "dropWhile ?P (xs @ replicate p (CHR ''='')) = xs @ replicate p (CHR ''='')"
    by (cases xs) simp_all
  have 2: "dropWhile ?P (replicate p (CHR ''='') @ rev xs) = dropWhile ?P (rev xs)"
    by (rule dropWhile_append2) simp
  from False assms have "\<not> ?P (last xs)"
    by (metis last_in_set)
  then have "\<not> ?P (hd (rev xs))"
    using False by (simp add: hd_rev)
  then have 3: "dropWhile ?P (rev xs) = rev xs"
    by (simp add: dropWhile_eq_self_iff)
  show ?thesis
    unfolding strip_eq_def 1 by (simp add: 2 3)
qed

lemma pad_count:
  assumes "p < 4" "(n + p) mod 4 = 0"
  shows "nat ((- int n) mod 4) = p"
proof -
  have "int ((n + p) mod 4) = 0" using assms(2) by simp
  then have "(int n + int p) mod 4 = 0" by (simp add: zmod_int)
  moreover have "int p < 4" "0 \<le> int p" using assms(1) by simp_all
  ultimately have "(- int n) mod 4 = int p" by presburger
  then show ?thesis by simp
qed

lemma translation_keeps_pad:
  "c \<in> set table_b2a_base64 \<Longrightarrow> urlsafe_encode_translation c \<noteq> CHR ''=''"
  using table_no_pad [of c] by (auto simp: urlsafe_encode_translation_def)

lemma b64_encode_body:
  "\<exists>body. b64_encode bs = map urlsafe_encode_translation body
     \<and> set body \<subseteq> set table_b2a_base64
     \<and> b64_decode (map urlsafe_encode_translation body) = Inr bs"
proof -
  obtain body p where sh: "b64_shape (b2a_base64 bs) body p"
    using b2a_base64_shape by blast
  then have b: "b2a_base64 bs = body @ replicate p (CHR ''='')" "p < 4"
    "(length body + p) mod 4 = 0" "set body \<subseteq> set table_b2a_base64"
    by (simp_all add: b64_shape_def)
  let ?t = "map urlsafe_encode_translation"
  have "urlsafe_encode_translation (CHR ''='') = CHR ''=''"
    by (simp add: urlsafe_encode_translation_def)
  then have e: "urlsafe_b64encode bs = ?t body @ replicate p (CHR ''='')"
    by (simp add: urlsafe_b64encode_def b)
  have nopad: "CHR ''='' \<notin> set (?t body)"
  proof
    assume "CHR ''='' \<in> set (?t body)"
    then obtain d where "d \<in> set body" "urlsafe_encode_translation d = CHR ''=''"
      by auto
    with b(4) translation_keeps_pad [of d] show False by auto
  qed
  have s: "b64_encode bs = ?t body"
    unfolding b64_encode_def e by (rule strip_eq_shape [OF nopad])
  have "nat ((- int (length (?t body))) mod 4) = p"
    using b(2,3) by (intro pad_count) simp_all
  then have "b64_decode (?t body) = urlsafe_b64decode (urlsafe_b64encode bs)"
    unfolding e by (simp add: b64_decode_def)
  then have "b64_decode (?t body) = Inr bs"
    by (simp add: urlsafe_decode_encode)
  with s b(4) show ?thesis by blast
qed

lemma b64_decode_encode: "b64_decode (b64_encode bs) = Inr bs"
  using b64_encode_body [of bs] by auto

lemma table_urlsafe_class:
  "\<forall>c\<in>set table_b2a_base64.
     (of_char (urlsafe_encode_translation c) :: nat) < 128
     \<and> unsafe_class (of_char (urlsafe_encode_translation c))"
  by (simp add: table_b2a_base64_def urlsafe_encode_translation_def unsafe_class_def)

lemma b64_encode_chars:
  assumes "c \<in> set (b64_encode bs)"
  shows "(of_char c :: nat) < 128 \<and> unsafe_class (of_char c)"
proof -
  obtain body where b: "b64_encode bs = map urlsafe_encode_translation body"
    "set body \<subseteq> set table_b2a_base64"
    using b64_encode_body by blast
  from assms obtain d where "d \<in> set body" "c = urlsafe_encode_translation d"
    unfolding b(1) by auto
  with b(2) table_urlsafe_class show ?thesis by blast
qed

section \<open>UTF-8: decoding inverts encoding\<close>

lemma split3: "(c::nat) div 4096 * 4096 + c div 64 mod 64 * 64 + c mod 64 = c"
proof -
  have "c mod 4096 = 64 * (c div 64 mod 64) + c mod 64"
    using mod_mult2_eq [of c 64 64] by simp
  moreover have "c div 4096 * 4096 + c mod 4096 = c"
    by simp
  ultimately show ?thesis by simp
qed

lemma split4:
  "(c::nat) div 262144 * 262144 + c div 4096 mod 64 * 4096 + c div 64 mod 64 * 64 + c mod 64 = c"
proof -
  have "c mod 262144 = 4096 * (c div 4096 mod 64) + c mod 4096"
    using mod_mult2_eq [of c 4096 64] by simp
  moreover have "c mod 4096 = 64 * (c div 64 mod 64) + c mod 64"
    using mod_mult2_eq [of c 64 64] by simp
  moreover have "c div 262144 * 262144 + c mod 262144 = c"
    by simp
  ultimately show ?thesis by simp
qed

lemma mod_window:
  fixes d :: nat
  assumes "d div 64 = k" "k * 64 + lo \<le> d" "d < k * 64 + hi"
  shows "lo \<le> d mod 64 \<and> d mod 64 < hi"
proof -
  have "64 * (d div 64) + d mod 64 = d" by (rule mult_div_mod_eq)
  with assms(1) have "k * 64 + d mod 64 = d" by simp
  with assms(2,3) show ?thesis by linarith
qed

lemma second3_lo:
  fixes c :: nat
  assumes "c div 4096 = 0" "2048 \<le> c"
  shows "32 \<le> c div 64 mod 64"
proof -
  have "c div 64 div 64 = 0" using assms(1) by (simp add: div_mult2_eq [symmetric])
  moreover have "2048 div 64 \<le> c div 64" using assms(2) by (rule div_le_mono)
  then have "0 * 64 + 32 \<le> c div 64" by simp
  moreover have "c div 64 < 0 * 64 + (c div 64 + 1)" by simp
  ultimately show ?thesis using mod_window by blast
qed

lemma second3_hi:
  fixes c :: nat
  assumes "c div 4096 = 13" "c < 55296"
  shows "c div 64 mod 64 < 32"
proof -
  have "c div 64 div 64 = 13" using assms(1) by (simp add: div_mult2_eq [symmetric])
  moreover have "c div 64 < 864" using assms(2) by (intro less_mult_imp_div_less) simp
  then have "c div 64 < 13 * 64 + 32" by simp
  moreover have "13 * 64 + 0 \<le> c div 64"
    using mult_div_mod_eq [of 64 "c div 64"] \<open>c div 64 div 64 = 13\<close> by linarith
  ultimately show ?thesis using mod_window by blast
qed

lemma second4_lo:
  fixes c :: nat
  assumes "c div 262144 = 0" "65536 \<le> c"
  shows "16 \<le> c div 4096 mod 64"
proof -
  have "c div 4096 div 64 = 0" using assms(1) by (simp add: div_mult2_eq [symmetric])
  moreover have "65536 div 4096 \<le> c div 4096" using assms(2) by (rule div_le_mono)
  then have "0 * 64 + 16 \<le> c div 4096" by simp
  moreover have "c div 4096 < 0 * 64 + (c div 4096 + 1)" by simp
  ultimately show ?thesis using mod_window by blast
qed

lemma second4_hi:
  fixes c :: nat
  assumes "c div 262144 = 4" "c < 1114112"
  shows "c div 4096 mod 64 < 16"
proof -
  have "c div 4096 div 64 = 4" using assms(1) by (simp add: div_mult2_eq [symmetric])
  moreover have "c div 4096 < 272" using assms(2) by (intro less_mult_imp_div_less) simp
  then have "c div 4096 < 4 * 64 + 16" by simp
  moreover have "4 * 64 + 0 \<le> c div 4096"
    using mult_div_mod_eq [of 64 "c div 4096"] \<open>c div 4096 div 64 = 4\<close> by linarith
  ultimately show ?thesis using mod_window by blast
qed

lemma utf8_next_1:
  assumes "c < 0x80"
  shows "utf8_next (utf8_char c @ rest) = Some (c, rest)"
  using assms by (simp add: utf8_next_def utf8_char_def)

lemma utf8_next_2:
  assumes "0x80 \<le> c" "c < 0x800"
  shows "utf8_next (utf8_char c @ rest) = Some (c, rest)"
proof -
  define a where "a = c div 64"
  define e where "e = c mod 64"
  have "c div 64 < 32" using assms(2) by (intro less_mult_imp_div_less) simp
  moreover have "128 div 64 \<le> c div 64" using assms(1) by (rule div_le_mono)
  ultimately have r: "a < 32" "2 \<le> a" "e < 64"
    by (simp_all add: a_def e_def)
  have v: "a * 64 + e = c"
    by (simp add: a_def e_def)
  have "utf8_char c = [char_of (0xC0 + a), char_of (0x80 + e)]"
    using assms by (simp add: utf8_char_def a_def e_def)
  then show ?thesis
    using r v by (simp add: utf8_next_def is_cont_def)
qed

lemma utf8_next_3:
  assumes "0x800 \<le> c" "c < 0x10000" "\<not> (0xD800 \<le> c \<and> c \<le> 0xDFFF)"
  shows "utf8_next (utf8_char c @ rest) = Some (c, rest)"
proof -
  define a where "a = c div 4096"
  define b where "b = c div 64 mod 64"
  define e where "e = c mod 64"
  have "c div 4096 < 16" using assms(2) by (intro less_mult_imp_div_less) simp
  then have r: "a < 16" "b < 64" "e < 64"
    by (simp_all add: a_def b_def e_def)
  have v: "a * 4096 + b * 64 + e = c"
    unfolding a_def b_def e_def by (rule split3)
  have lo: "a = 0 \<Longrightarrow> 32 \<le> b"
    unfolding a_def b_def using assms(1) by (intro second3_lo) simp_all
  have "a = 13 \<Longrightarrow> c < 55296"
  proof -
    assume "a = 13"
    then have "c \<le> 57343" using v r by linarith
    with assms(3) show "c < 55296" by linarith
  qed
  then have hi: "a = 13 \<Longrightarrow> b < 32"
    unfolding a_def b_def by (intro second3_hi) simp_all
  have "utf8_char c = [char_of (0xE0 + a), char_of (0x80 + b), char_of (0x80 + e)]"
    using assms by (simp add: utf8_char_def a_def b_def e_def)
  then show ?thesis
    using r v lo hi by (auto simp: utf8_next_def second_ok_def is_cont_def)
qed

lemma utf8_next_4:
  assumes "0x10000 \<le> c" "c < 0x110000"
  shows "utf8_next (utf8_char c @ rest) = Some (c, rest)"
proof -
  define a where "a = c div 262144"
  define b where "b = c div 4096 mod 64"
  define d where "d = c div 64 mod 64"
  define e where "e = c mod 64"
  have "c div 262144 < 5" using assms(2) by (intro less_mult_imp_div_less) simp
  then have r: "a < 5" "b < 64" "d < 64" "e < 64"
    by (simp_all add: a_def b_def d_def e_def)
  have v: "a * 262144 + b * 4096 + d * 64 + e = c"
    unfolding a_def b_def d_def e_def by (rule split4)
  have lo: "a = 0 \<Longrightarrow> 16 \<le> b"
    unfolding a_def b_def using assms(1) by (intro second4_lo) simp_all
  have hi: "a = 4 \<Longrightarrow> b < 16"
    unfolding a_def b_def using assms(2) by (intro second4_hi) simp_all
  have "utf8_char c = [char_of (0xF0 + a), char_of (0x80 + b), char_of (0x80 + d),
      char_of (0x80 + e)]"
    using assms by (simp add: utf8_char_def a_def b_def d_def e_def)
  then show ?thesis
    using r v lo hi by (auto simp: utf8_next_def second_ok_def is_cont_def)
qed

lemma utf8_next_char:
  assumes "encodable_char c"
  shows "utf8_next (utf8_char c @ rest) = Some (c, rest)"
proof -
  consider "c < 0x80" | "0x80 \<le> c" "c < 0x800"
    | "0x800 \<le> c" "c < 0x10000" "\<not> (0xD800 \<le> c \<and> c \<le> 0xDFFF)"
    | "0x10000 \<le> c" "c < 0x110000"
    using assms unfolding encodable_char_def by linarith
  then show ?thesis
    by cases (simp_all add: utf8_next_1 utf8_next_2 utf8_next_3 utf8_next_4)
qed

lemma utf8_char_not_Nil: "utf8_char c \<noteq> []"
  by (simp add: utf8_char_def)

lemma utf8_decode_char:
  assumes "encodable_char c"
  shows "utf8_decode (utf8_char c @ rest)
         = (case utf8_decode rest of Inl e \<Rightarrow> Inl e | Inr cs \<Rightarrow> Inr (c # cs))"
  by (subst utf8_decode.simps) (simp add: utf8_next_char [OF assms] utf8_char_not_Nil)

lemma utf8_decode_encode: "utf8_encode v = Inr bs \<Longrightarrow> utf8_decode bs = Inr v"
proof (induction v arbitrary: bs)
  case Nil
  then show ?case by (simp add: utf8_decode.simps)
next
  case (Cons c cs)
  from Cons.prems obtain bs' where e: "encodable_char c" "utf8_encode cs = Inr bs'"
    "bs = utf8_char c @ bs'"
    by (auto split: if_splits sum.splits)
  with Cons.IH [of bs'] show ?case
    by (simp add: utf8_decode_char)
qed

section \<open>ASCII strings\<close>

lemma utf8_encode_ascii:
  "\<forall>b\<in>set bs. (of_char b :: nat) < 128 \<Longrightarrow> utf8_encode (map of_char bs) = Inr bs"
  by (induction bs) (simp_all add: encodable_char_def utf8_char_def)

lemma utf8_decode_ascii:
  "\<forall>b\<in>set bs. (of_char b :: nat) < 128 \<Longrightarrow> utf8_decode bs = Inr (map of_char bs)"
  by (rule utf8_decode_encode) (rule utf8_encode_ascii)

lemma b64_encode_decode_str: "utf8_decode (b64_encode bs) = Inr (map of_char (b64_encode bs))"
  by (rule utf8_decode_ascii) (simp add: b64_encode_chars)

lemma b64_encode_encode_str: "utf8_encode (map of_char (b64_encode bs)) = Inr (b64_encode bs)"
  by (rule utf8_encode_ascii) (simp add: b64_encode_chars)

section \<open>Fixed-width integers: decoding inverts encoding\<close>

lemma length_to_bytes_big: "length (to_bytes_big k n) = k"
  by (induction k arbitrary: n) simp_all

lemma from_bytes_big_append:
  "from_bytes_big (bs @ [b]) = from_bytes_big bs * 256 + of_char b"
  by (simp add: from_bytes_big_def)

lemma from_to_bytes_big: "from_bytes_big (to_bytes_big k n) = n mod 256 ^ k"
proof (induction k arbitrary: n)
  case 0
  then show ?case by (simp add: from_bytes_big_def)
next
  case (Suc k)
  have "n mod (256 * 256 ^ k) = 256 * (n div 256 mod 256 ^ k) + n mod 256"
    by (rule mod_mult2_eq)
  with Suc show ?case
    by (simp add: from_bytes_big_append)
qed

lemma from_bytes_big_bound: "from_bytes_big bs < 256 ^ length bs"
proof (induction bs rule: rev_induct)
  case Nil
  then show ?case by (simp add: from_bytes_big_def)
next
  case (snoc b bs)
  have "(of_char b :: nat) < 256" by (rule of_char_less_256)
  with snoc have "from_bytes_big bs * 256 + of_char b < (from_bytes_big bs + 1) * 256"
    by simp
  also have "\<dots> \<le> 256 ^ length bs * 256"
    using snoc by (intro mult_le_mono1) simp
  finally show ?case
    by (simp add: from_bytes_big_append)
qed

lemma to_from_bytes_big: "to_bytes_big (length bs) (from_bytes_big bs) = bs"
proof (induction bs rule: rev_induct)
  case Nil
  then show ?case by simp
next
  case (snoc b bs)
  have b: "(of_char b :: nat) < 256" by (rule of_char_less_256)
  then have "(from_bytes_big bs * 256 + of_char b) div 256 = from_bytes_big bs"
    "(from_bytes_big bs * 256 + of_char b) mod 256 = of_char b"
    by simp_all
  with snoc show ?case
    by (simp add: from_bytes_big_append)
qed

lemma int_from_to_bytes:
  assumes "int_to_bytes i len order = Inr bs"
  shows "int_from_bytes bs order = i \<and> length bs = len"
proof -
  from assms have r: "0 \<le> i" "nat i < 256 ^ len"
    and bs: "bs = (case order of Big \<Rightarrow> to_bytes_big len (nat i)
                   | Little \<Rightarrow> rev (to_bytes_big len (nat i)))"
    by (auto simp: int_to_bytes_def split: if_splits)
  have "from_bytes_big (to_bytes_big len (nat i)) = nat i"
    using r(2) by (simp add: from_to_bytes_big)
  then show ?thesis
    using r(1) bs by (cases order) (simp_all add: int_from_bytes_def length_to_bytes_big)
qed

lemma int_to_from_bytes:
  "int_to_bytes (int_from_bytes bs order) (length bs) order = Inr bs"
proof (cases order)
  case Big
  then show ?thesis
    using from_bytes_big_bound [of bs]
    by (simp add: int_to_bytes_def int_from_bytes_def to_from_bytes_big)
next
  case Little
  then show ?thesis
    using from_bytes_big_bound [of "rev bs"] to_from_bytes_big [of "rev bs"]
    by (simp add: int_to_bytes_def int_from_bytes_def)
qed

section \<open>Splitting a joined token\<close>

lemma starts_with_iff: "starts_with p s \<longleftrightarrow> (\<exists>r. s = p @ r)"
  by (induction p s rule: starts_with.induct) auto

lemma starts_with_append: "starts_with p (p @ r)"
  by (simp add: starts_with_iff)

lemma str_contains_join: "str_contains sp (xs @ sp @ ys)"
proof (induction xs)
  case Nil
  show ?case
  proof (cases "sp @ ys")
    case Nil
    then show ?thesis by simp
  next
    case (Cons a list)
    have "starts_with sp (sp @ ys)" by (rule starts_with_append)
    then have "str_contains sp (a # list)" unfolding Cons by simp
    then show ?thesis by (simp add: Cons)
  qed
next
  case (Cons x xs)
  then show ?case by simp
qed

lemma first_occurrence_unique:
  "c \<notin> set xs \<Longrightarrow> c \<notin> set ys \<Longrightarrow> xs @ c # a = ys @ c # b \<Longrightarrow> xs = ys"
proof (induction xs arbitrary: ys)
  case Nil
  then show ?case by (cases ys) auto
next
  case (Cons x xs)
  then show ?case by (cases ys) auto
qed

lemma no_early_match:
  assumes "c \<in> set sp" "c \<notin> set e" "e \<noteq> []"
  shows "\<not> starts_with sp (e @ sp @ rest)"
proof
  assume "starts_with sp (e @ sp @ rest)"
  then obtain r where r: "e @ sp @ rest = sp @ r"
    by (auto simp: starts_with_iff)
  from assms(1) obtain ys zs where sp: "sp = ys @ c # zs" "c \<notin> set ys"
    by (auto dest: split_list_first)
  from r have eq: "(e @ ys) @ c # (zs @ rest) = ys @ c # (zs @ r)"
    by (simp add: sp)
  have ne: "c \<notin> set (e @ ys)"
    using assms(2) sp(2) by simp
  have "e @ ys = ys"
    by (rule first_occurrence_unique [OF ne sp(2) eq])
  then have "length (e @ ys) = length ys" by simp
  with assms(3) show False by simp
qed

lemma split_from_no_sep:
  assumes "c \<in> set sp" "c \<notin> set s"
  shows "split_from sp piece s = [rev piece @ s]"
  using assms(2)
proof (induction s arbitrary: piece)
  case Nil
  show ?case by (simp add: split_from.simps)
next
  case (Cons x xs)
  have "\<not> starts_with sp (x # xs)"
  proof
    assume "starts_with sp (x # xs)"
    then obtain r where "x # xs = sp @ r" by (auto simp: starts_with_iff)
    then have "set sp \<subseteq> set (x # xs)" by (metis set_append Un_upper1)
    with assms(1) Cons.prems show False by auto
  qed
  with Cons.IH [of "x # piece"] Cons.prems show ?case
    by (subst split_from.simps) simp
qed

lemma split_from_join:
  assumes "c \<in> set sp" "c \<notin> set e"
  shows "split_from sp piece (e @ sp @ rest) = (rev piece @ e) # split_from sp [] rest"
  using assms(2)
proof (induction e arbitrary: piece)
  case Nil
  from assms(1) have "sp \<noteq> []" by auto
  then show ?case
    by (subst split_from.simps) (simp add: starts_with_append)
next
  case (Cons x xs)
  have "\<not> starts_with sp ((x # xs) @ sp @ rest)"
    using assms(1) Cons.prems by (intro no_early_match) simp_all
  with Cons.IH [of "x # piece"] Cons.prems show ?case
    by (subst split_from.simps) simp
qed

lemma str_split_join3:
  assumes "c \<in> set sp" "c \<notin> set p1" "c \<notin> set p2" "c \<notin> set p3"
  shows "str_split (str_join sp [p1, p2, p3]) sp = Inr [p1, p2, p3]"
    and "str_contains sp (str_join sp [p1, p2, p3])"
proof -
  from assms(1) have "sp \<noteq> []" by auto
  then show "str_split (str_join sp [p1, p2, p3]) sp = Inr [p1, p2, p3]"
    using assms
    by (simp add: str_split_def split_from_join [of c] split_from_no_sep [of c])
  show "str_contains sp (str_join sp [p1, p2, p3])"
    by (simp add: str_contains_join)
qed

section \<open>Construction\<close>

lemma dropWhile_all: "(\<forall>c\<in>set s. P c) \<Longrightarrow> dropWhile P s = []"
  by (induction s) auto

lemma UNSAFE_SEP_match_all: "(\<forall>c\<in>set s. unsafe_class c) \<Longrightarrow> UNSAFE_SEP_match s"
  by (simp add: UNSAFE_SEP_match_def dollar_at_def dropWhile_all)

lemma fixture_signer_init:
  "Signer_init (str_of ''fake'') (str_of ''.'') None None checksum8 = Inr fixture_signer"
  by (simp add: Signer_init_def fixture_signer_def UNSAFE_SEP_match_def dollar_at_def
      unsafe_class_def str_of_def)

lemma base64url_pad_alphabet_class: "base64url_pad_alphabet c \<Longrightarrow> unsafe_class c"
  by (auto simp: base64url_pad_alphabet_def unsafe_class_def)

lemma UNSAFE_SEP_match_iff:
  "UNSAFE_SEP_match s \<longleftrightarrow>
     (\<forall>c\<in>set s. unsafe_class c) \<or> (\<exists>p. s = p @ [10] \<and> (\<forall>c\<in>set p. unsafe_class c))"
proof -
  have n: "\<not> unsafe_class 10" by (simp add: unsafe_class_def)
  have split: "s = takeWhile unsafe_class s @ dropWhile unsafe_class s" by simp
  show ?thesis
  proof
    assume "UNSAFE_SEP_match s"
    then consider "dropWhile unsafe_class s = []" | "dropWhile unsafe_class s = [10]"
      by (auto simp: UNSAFE_SEP_match_def dollar_at_def)
    then show "(\<forall>c\<in>set s. unsafe_class c)
        \<or> (\<exists>p. s = p @ [10] \<and> (\<forall>c\<in>set p. unsafe_class c))"
    proof cases
      case 1
      then show ?thesis by (simp add: dropWhile_eq_Nil_conv)
    next
      case 2
      with split have "s = takeWhile unsafe_class s @ [10]" by simp
      moreover have "\<forall>c\<in>set (takeWhile unsafe_class s). unsafe_class c"
        by (auto dest: set_takeWhileD)
      ultimately show ?thesis by blast
    qed
  next
    assume "(\<forall>c\<in>set s. unsafe_class c)
        \<or> (\<exists>p. s = p @ [10] \<and> (\<forall>c\<in>set p. unsafe_class c))"
    then show "UNSAFE_SEP_match s"
    proof
      assume "\<forall>c\<in>set s. unsafe_class c"
      then show ?thesis by (rule UNSAFE_SEP_match_all)
    next
      assume "\<exists>p. s = p @ [10] \<and> (\<forall>c\<in>set p. unsafe_class c)"
      then obtain p where p: "s = p @ [10]" "\<forall>c\<in>set p. unsafe_class c" by blast
      then have "dropWhile unsafe_class s = [10]"
        using n by (simp add: dropWhile_append2)
      then show ?thesis by (simp add: UNSAFE_SEP_match_def dollar_at_def)
    qed
  qed
qed

lemma Signer_init_sep:
  assumes "Signer_init k sp bo sl alg = Inr s"
  shows "sep s = sp" "key s = k" "algorithm s = alg" "\<exists>c\<in>set sp. \<not> unsafe_class c"
proof -
  from assms have n: "\<not> UNSAFE_SEP_match sp" and s: "s = \<lparr> key = k, sep = sp,
                 byte_order = (case bo of None \<Rightarrow> Big | Some b \<Rightarrow> b),
                 salt = (case sl of None \<Rightarrow> default_salt
                         | Some x \<Rightarrow> if x = [] then default_salt else x),
                 algorithm = alg \<rparr>"
    by (auto simp: Signer_init_def split: if_splits)
  from s show "sep s = sp" "key s = k" "algorithm s = alg" by simp_all
  from n UNSAFE_SEP_match_all [of sp] show "\<exists>c\<in>set sp. \<not> unsafe_class c" by blast
qed

text \<open>
  C4. Constructing a Signer with a non-empty separator whose characters all belong to the
  alphabet \<open>[A-Za-z0-9_=-]\<close> fails with the configuration error (\<open>ValueError\<close>);
  constructing with the empty separator fails for every other argument; constructing with
  the default separator \<open>.\<close> succeeds.
\<close>

theorem Signer_init_separator:
  "(sp \<noteq> [] \<and> (\<forall>c\<in>set sp. base64url_pad_alphabet c)
      \<longrightarrow> Signer_init k sp bo sl alg = Inl ValueError)
   \<and> Signer_init k [] bo sl alg = Inl ValueError
   \<and> (\<exists>s. Signer_init k (str_of ''.'') bo sl alg = Inr s)"
proof (intro conjI impI)
  assume "sp \<noteq> [] \<and> (\<forall>c\<in>set sp. base64url_pad_alphabet c)"
  then have "\<forall>c\<in>set sp. unsafe_class c"
    using base64url_pad_alphabet_class by blast
  then show "Signer_init k sp bo sl alg = Inl ValueError"
    by (simp add: Signer_init_def UNSAFE_SEP_match_all)
next
  show "Signer_init k [] bo sl alg = Inl ValueError"
    by (simp add: Signer_init_def UNSAFE_SEP_match_def dollar_at_def)
next
  have "\<not> UNSAFE_SEP_match (str_of ''.'')"
    by (simp add: UNSAFE_SEP_match_def dollar_at_def unsafe_class_def str_of_def)
  then show "\<exists>s. Signer_init k (str_of ''.'') bo sl alg = Inr s"
    by (simp add: Signer_init_def)
qed

theorem Signer_init_separator_witness:
  "Signer_init (str_of ''fake'') (str_of ''a'') None None checksum8 = Inl ValueError"
proof -
  have h: "str_of ''a'' \<noteq> [] \<and> (\<forall>c\<in>set (str_of ''a''). base64url_pad_alphabet c)"
    by (simp add: str_of_def base64url_pad_alphabet_def)
  from Signer_init_separator [of "str_of ''a''" "str_of ''fake''" None None checksum8] h
  show ?thesis by blast
qed

section \<open>The separator check and a final newline\<close>

lemma Signer_init_caret_and_mixed:
  "Signer_init k [94] bo sl alg = Inl ValueError
   \<and> \<not> base64url_pad_alphabet 94
   \<and> (\<exists>s. Signer_init k (str_of ''a.'') bo sl alg = Inr s)"
  by (simp add: Signer_init_def UNSAFE_SEP_match_def dollar_at_def unsafe_class_def
      base64url_pad_alphabet_def str_of_def)

text \<open>
  C10. The separator check matches the class \<open>[A-z0-9-_=]\<close>, and a separator with a
  character outside the class is to be accepted. The newline (code point 10) is outside
  the class, and still the separator that consists of one newline is rejected: \<open>$\<close> holds
  before a final newline, so the pattern matches the empty run in front of it.
\<close>

theorem Signer_init_newline_rejected:
  "\<not> unsafe_class 10
   \<and> Signer_init (str_of ''fake'') [10] None None checksum8 = Inl ValueError"
  by (simp add: Signer_init_def UNSAFE_SEP_match_def dollar_at_def unsafe_class_def)

section \<open>Timestamp validation\<close>

text \<open>
  C6. \<open>is_valid_timestamp\<close> holds whenever \<open>max_age\<close> is \<open>None\<close>. With a \<open>timedelta\<close>,
  taken by its total seconds, or with a number, it holds exactly when the absolute
  difference between the clock and the timestamp is strictly less than \<open>max_age\<close>; the
  difference is absolute, so the result is the same with the clock and the timestamp
  exchanged, and a timestamp 50 seconds ahead of the clock is valid for a window of 60.
\<close>

theorem is_valid_timestamp_window:
  "is_valid_timestamp now ts None
   \<and> (is_valid_timestamp now ts (Some (Timedelta secs)) \<longleftrightarrow> of_int \<bar>now - ts\<bar> < secs)
   \<and> (is_valid_timestamp now ts (Some (Number n)) \<longleftrightarrow> of_int \<bar>now - ts\<bar> < n)
   \<and> (is_valid_timestamp now ts ma \<longleftrightarrow> is_valid_timestamp ts now ma)
   \<and> is_valid_timestamp 1000 1050 (Some (Number 60))
   \<and> \<not> is_valid_timestamp 1000 1060 (Some (Number 60))"
  by (simp add: is_valid_timestamp_def Let_def abs_minus_commute split: option.split MaxAge.split)

section \<open>Validation: structure, order of the checks\<close>

lemma validate_no_separator:
  assumes "\<not> str_contains (sep s) tok"
  shows "validate_calls s tok ma tv sv = ([], Inl (BadToken ''Separator not found in token'' tok))"
  using assms by (simp add: validate_calls_def)

lemma validate_bad_structure:
  assumes "str_contains (sep s) tok" "str_split tok (sep s) = Inr parts" "length parts \<noteq> 3"
  shows "validate_calls s tok ma tv sv = ([], Inl (BadToken ''Invalid token structure'' tok))"
proof -
  have "\<And>a b c. parts \<noteq> [a, b, c]" using assms(3) by auto
  then show ?thesis
    using assms(1,2) by (simp add: validate_calls_def split: list.split)
qed

text \<open>
  C8. For every string in which the separator does not occur, \<open>validate\<close> fails with
  \<open>BadToken("Separator not found in token")\<close>. For every string in which it occurs and
  whose split by the separator does not have exactly three parts, \<open>validate\<close> fails with
  \<open>BadToken("Invalid token structure")\<close>.
\<close>

theorem validate_structural_rejection:
  "(\<not> str_contains (sep s) tok
      \<longrightarrow> validate s tok ma tv sv = Inl (BadToken ''Separator not found in token'' tok))
   \<and> (str_contains (sep s) tok \<and> str_split tok (sep s) = Inr parts \<and> length parts \<noteq> 3
      \<longrightarrow> validate s tok ma tv sv = Inl (BadToken ''Invalid token structure'' tok))"
  by (simp add: validate_def validate_no_separator validate_bad_structure)

lemma fixture_fields:
  "sep fixture_signer = [46]" "byte_order fixture_signer = Big"
  by (simp_all add: fixture_signer_def str_of_def)

theorem validate_structural_rejection_witness:
  "\<not> str_contains (sep fixture_signer) (str_of ''nosep'')
   \<and> validate fixture_signer (str_of ''nosep'') None (is_valid_timestamp 0) compare_digest
       = Inl (BadToken ''Separator not found in token'' (str_of ''nosep''))
   \<and> str_contains (sep fixture_signer) (str_of ''has.sep'')
   \<and> str_split (str_of ''has.sep'') (sep fixture_signer) = Inr [str_of ''has'', str_of ''sep'']
   \<and> validate fixture_signer (str_of ''has.sep'') None (is_valid_timestamp 0) compare_digest
       = Inl (BadToken ''Invalid token structure'' (str_of ''has.sep''))"
proof -
  have 1: "\<not> str_contains (sep fixture_signer) (str_of ''nosep'')"
    by (simp add: fixture_fields str_of_def)
  have 2: "str_contains (sep fixture_signer) (str_of ''has.sep'')"
    by (simp add: fixture_fields str_of_def)
  have 3: "str_split (str_of ''has.sep'') (sep fixture_signer)
      = Inr [str_of ''has'', str_of ''sep'']"
    by (simp add: fixture_fields str_of_def str_split_def split_from.simps)
  have 4: "length [str_of ''has'', str_of ''sep''] \<noteq> 3" by simp
  from validate_structural_rejection [of fixture_signer "str_of ''nosep''" None
      "is_valid_timestamp 0" compare_digest] 1
  have a: "validate fixture_signer (str_of ''nosep'') None (is_valid_timestamp 0) compare_digest
       = Inl (BadToken ''Separator not found in token'' (str_of ''nosep''))"
    by blast
  from validate_structural_rejection [of fixture_signer "str_of ''has.sep''" None
      "is_valid_timestamp 0" compare_digest "[str_of ''has'', str_of ''sep'']"] 2 3 4
  have b: "validate fixture_signer (str_of ''has.sep'') None (is_valid_timestamp 0) compare_digest
       = Inl (BadToken ''Invalid token structure'' (str_of ''has.sep''))"
    by blast
  from 1 2 3 a b show ?thesis by blast
qed

section \<open>Running the model on concrete inputs\<close>

lemma replicate_small:
  "replicate 1 c = [c]" "replicate 2 c = [c, c]" "replicate 3 c = [c, c, c]"
  by (simp_all add: numeral_2_eq_2 numeral_3_eq_3)

lemmas codec_eval = replicate_small
  b64_decode_def urlsafe_b64decode_def a2b_base64_def urlsafe_decode_translation_def
  table_a2b_base64_def table_b2a_base64_def b64_encode_def urlsafe_b64encode_def
  urlsafe_encode_translation_def strip_eq_def b2a_def
  utf8_decode.simps utf8_next_def is_cont_def second_ok_def utf8_char_def encodable_char_def
  int_to_bytes_def int_from_bytes_def from_bytes_big_def
  str_of_def str_split_def split_from.simps

lemma utf8_encode_str_of:
  "\<forall>b\<in>set x. (of_char b :: nat) < 128 \<Longrightarrow> utf8_encode (str_of x) = Inr x"
  unfolding str_of_def by (rule utf8_encode_ascii)

section \<open>Validation: the expiry check comes before the signature check\<close>

lemma validate_calls_expired:
  assumes "str_contains (sep s) tok"
    and "str_split tok (sep s) = Inr [ev, et, sg]"
    and "utf8_encode et = Inr etb" and "decode_int s etb = Inr ts"
    and "utf8_encode ev = Inr evb" and "decode_value evb = Inr v"
    and "\<not> tv ts ma"
  shows "validate_calls s tok ma tv sv
         = ([TimestampValidatorCall ts ma], Inl (BadToken ''Token has expired'' tok))"
  using assms by (simp add: validate_calls_def)

lemma validate_calls_signature_after_timestamp:
  assumes "SignatureValidatorCall x y \<in> set (fst (validate_calls s tok ma tv sv))"
  shows "\<exists>t. fst (validate_calls s tok ma tv sv)
               = [TimestampValidatorCall t ma, SignatureValidatorCall x y] \<and> tv t ma"
  using assms
  by (auto simp: validate_calls_def Let_def split: if_splits sum.splits list.splits)

text \<open>
  C5. For every token that passes the structural checks and whose timestamp and value
  segments decode, if the timestamp validator returns false then \<open>validate\<close> fails with
  \<open>BadToken("Token has expired")\<close>, whatever the signature validator is, and the only call
  made to a validator is the one to the timestamp validator: the signature validator is
  not invoked. Whenever the signature validator is called, the timestamp validator was
  called before it and returned true.
\<close>

theorem validate_expiry_before_signature:
  "(str_contains (sep s) tok \<and> str_split tok (sep s) = Inr [ev, et, sg]
      \<and> utf8_encode et = Inr etb \<and> decode_int s etb = Inr ts
      \<and> utf8_encode ev = Inr evb \<and> decode_value evb = Inr v \<and> \<not> tv ts ma
    \<longrightarrow> validate s tok ma tv sv = Inl (BadToken ''Token has expired'' tok)
        \<and> fst (validate_calls s tok ma tv sv) = [TimestampValidatorCall ts ma])
   \<and> (SignatureValidatorCall x y \<in> set (fst (validate_calls s tok ma tv sv))
    \<longrightarrow> (\<exists>t. fst (validate_calls s tok ma tv sv)
               = [TimestampValidatorCall t ma, SignatureValidatorCall x y] \<and> tv t ma))"
  by (simp add: validate_def validate_calls_expired validate_calls_signature_after_timestamp)

theorem validate_expiry_before_signature_witness:
  "validate fixture_signer (str_of ''dmFsdWU.AAAAAAAAAAE.x'') None (\<lambda>timestamp max_age. False)
       compare_digest
     = Inl (BadToken ''Token has expired'' (str_of ''dmFsdWU.AAAAAAAAAAE.x''))
   \<and> fst (validate_calls fixture_signer (str_of ''dmFsdWU.AAAAAAAAAAE.x'') None
       (\<lambda>timestamp max_age. False) compare_digest) = [TimestampValidatorCall 1 None]"
proof -
  have 1: "str_contains (sep fixture_signer) (str_of ''dmFsdWU.AAAAAAAAAAE.x'')"
    by (simp add: fixture_fields str_of_def)
  have 2: "str_split (str_of ''dmFsdWU.AAAAAAAAAAE.x'') (sep fixture_signer)
      = Inr [str_of ''dmFsdWU'', str_of ''AAAAAAAAAAE'', str_of ''x'']"
    by (simp add: fixture_fields codec_eval)
  have 3: "utf8_encode (str_of ''AAAAAAAAAAE'') = Inr ''AAAAAAAAAAE''"
    by (rule utf8_encode_str_of) simp
  have 4: "decode_int fixture_signer ''AAAAAAAAAAE'' = Inr 1"
    by (simp add: decode_int_def fixture_fields codec_eval)
  have 5: "utf8_encode (str_of ''dmFsdWU'') = Inr ''dmFsdWU''"
    by (rule utf8_encode_str_of) simp
  have 6: "decode_value ''dmFsdWU'' = Inr (str_of ''value'')"
    by (simp add: decode_value_def codec_eval)
  note t = validate_expiry_before_signature [where s = fixture_signer
      and tok = "str_of ''dmFsdWU.AAAAAAAAAAE.x''" and ev = "str_of ''dmFsdWU''"
      and et = "str_of ''AAAAAAAAAAE''" and sg = "str_of ''x''" and etb = "''AAAAAAAAAAE''"
      and ts = 1 and evb = "''dmFsdWU''" and v = "str_of ''value''"
      and tv = "\<lambda>timestamp max_age. False" and ma = None and sv = compare_digest]
  from t 1 2 3 4 5 6 show ?thesis by simp
qed

section \<open>Decoding the timestamp\<close>

lemma int_from_bytes_range:
  "0 \<le> int_from_bytes bs order \<and> int_from_bytes bs order < 256 ^ length bs"
proof -
  have "int (from_bytes_big bs) < int (256 ^ length bs)"
    "int (from_bytes_big (rev bs)) < int (256 ^ length (rev bs))"
    using from_bytes_big_bound [of bs] from_bytes_big_bound [of "rev bs"]
    by (simp_all only: of_nat_less_iff)
  then show ?thesis
    by (cases order) (simp_all add: int_from_bytes_def)
qed

lemma decode_encode_int:
  assumes "encode_int s n = Inr y"
  shows "decode_int s y = Inr n"
proof -
  from assms obtain bs where bs: "int_to_bytes n 8 (byte_order s) = Inr bs" "y = b64_encode bs"
    by (auto simp: encode_int_def split: sum.splits)
  from int_from_to_bytes [OF bs(1)] show ?thesis
    by (simp add: decode_int_def bs(2) b64_decode_encode)
qed

theorem decode_int_any_length_counterexample:
  "b64_decode ''AQ'' = Inr [char_of (1 :: nat)]
   \<and> length [char_of (1 :: nat)] \<noteq> 8
   \<and> decode_int fixture_signer ''AQ'' = Inr 1"
  by (simp add: decode_int_def fixture_fields codec_eval)

text \<open>
  C7, as the code has it. \<open>decode_int\<close> checks no length: it fails exactly when the
  base64 decoding of the input fails, with that error, and otherwise returns the unsigned
  integer that the decoded bytes, however many, denote in the configured byte order. When
  the decoded bytes are exactly 8, the result is below \<open>2 ^ 64\<close> and is the one integer
  whose 8-byte encoding in that byte order is those bytes; \<open>decode_int\<close> inverts
  \<open>encode_int\<close>.
\<close>

theorem decode_int_any_length:
  "(b64_decode x = Inl e \<longrightarrow> decode_int s x = Inl e)
   \<and> (b64_decode x = Inr bs \<longrightarrow>
        decode_int s x = Inr (int_from_bytes bs (byte_order s))
        \<and> (length bs = 8 \<longrightarrow>
             0 \<le> int_from_bytes bs (byte_order s)
             \<and> int_from_bytes bs (byte_order s) < 2 ^ 64
             \<and> int_to_bytes (int_from_bytes bs (byte_order s)) 8 (byte_order s) = Inr bs
             \<and> (\<forall>m. int_to_bytes m 8 (byte_order s) = Inr bs
                    \<longrightarrow> m = int_from_bytes bs (byte_order s))))
   \<and> (encode_int s n = Inr y \<longrightarrow> decode_int s y = Inr n)"
proof (intro conjI impI allI)
  assume "b64_decode x = Inl e"
  then show "decode_int s x = Inl e" by (simp add: decode_int_def)
next
  assume "b64_decode x = Inr bs"
  then show "decode_int s x = Inr (int_from_bytes bs (byte_order s))"
    by (simp add: decode_int_def)
next
  show "0 \<le> int_from_bytes bs (byte_order s)"
    using int_from_bytes_range by blast
next
  assume "length bs = 8"
  with int_from_bytes_range [of bs "byte_order s"]
  show "int_from_bytes bs (byte_order s) < 2 ^ 64" by simp
next
  assume "length bs = 8"
  with int_to_from_bytes [of bs "byte_order s"]
  show "int_to_bytes (int_from_bytes bs (byte_order s)) 8 (byte_order s) = Inr bs" by simp
next
  fix m
  assume "int_to_bytes m 8 (byte_order s) = Inr bs"
  from int_from_to_bytes [OF this] show "m = int_from_bytes bs (byte_order s)" by simp
next
  assume "encode_int s n = Inr y"
  then show "decode_int s y = Inr n" by (rule decode_encode_int)
qed

theorem decode_int_any_length_witness:
  "b64_decode ''AAAAAAAAAAE'' = Inr (map char_of [0, 0, 0, 0, 0, 0, 0, 1 :: nat])
   \<and> decode_int fixture_signer ''AAAAAAAAAAE'' = Inr 1
   \<and> int_to_bytes 1 8 Big = Inr (map char_of [0, 0, 0, 0, 0, 0, 0, 1 :: nat])
   \<and> b64_decode ''A'' = Inl BinasciiError
   \<and> decode_int fixture_signer ''A'' = Inl BinasciiError"
proof -
  let ?bs = "map char_of [0, 0, 0, 0, 0, 0, 0, 1 :: nat]"
  have 1: "b64_decode ''AAAAAAAAAAE'' = Inr ?bs"
    by (simp add: codec_eval)
  have 2: "length ?bs = 8" by simp
  have 3: "int_from_bytes ?bs Big = 1"
    by (simp add: codec_eval)
  have 4: "b64_decode ''A'' = Inl BinasciiError"
    by (simp add: codec_eval)
  note t = decode_int_any_length [of "''AAAAAAAAAAE''" _ fixture_signer ?bs]
  from t 1 2 have "decode_int fixture_signer ''AAAAAAAAAAE''
      = Inr (int_from_bytes ?bs (byte_order fixture_signer))"
    and "int_to_bytes (int_from_bytes ?bs (byte_order fixture_signer)) 8
      (byte_order fixture_signer) = Inr ?bs"
    by blast+
  then have a: "decode_int fixture_signer ''AAAAAAAAAAE'' = Inr 1"
    and b: "int_to_bytes 1 8 Big = Inr ?bs"
    by (simp_all only: fixture_fields 3)
  from decode_int_any_length [of "''A''" BinasciiError fixture_signer] 4
  have c: "decode_int fixture_signer ''A'' = Inl BinasciiError" by blast
  from 1 a b 4 c show ?thesis by blast
qed

section \<open>Validation: a segment that does not decode\<close>








lemma decode_value_skips_foreign_character:
  "decode_value ''Zm9v!'' = Inr (str_of ''foo'')"
  by (simp add: decode_value_def codec_eval)





section \<open>Signing\<close>

lemma utf8_encode_append:
  "utf8_encode (a @ b) =
     (case utf8_encode a of
        Inl e \<Rightarrow> Inl e
      | Inr x \<Rightarrow> (case utf8_encode b of Inl e \<Rightarrow> Inl e | Inr y \<Rightarrow> Inr (x @ y)))"
  by (induction a) (auto split: sum.splits)

lemma utf8_encode_total:
  "(\<forall>c\<in>set v. encodable_char c) \<Longrightarrow> \<exists>bs. utf8_encode v = Inr bs"
  by (induction v) auto

lemma utf8_encode_chars:
  "utf8_encode v = Inr bs \<Longrightarrow> \<forall>c\<in>set v. encodable_char c"
  by (induction v arbitrary: bs) (auto split: if_splits sum.splits)

lemma digits_chars: "\<forall>c\<in>set (digits n). 48 \<le> c \<and> c \<le> 57"
proof (induction n rule: digits.induct)
  case (1 n)
  show ?case
  proof (cases "n < 10")
    case True
    then show ?thesis by (subst digits.simps) simp
  next
    case False
    with "1.IH" show ?thesis by (subst digits.simps) auto
  qed
qed

lemma str_int_chars: "\<forall>c\<in>set (str_int i). encodable_char c"
  using digits_chars [of "nat i"] digits_chars [of "nat (- i)"]
  by (auto simp: str_int_def encodable_char_def)

lemma unsigned_value_encodable:
  assumes "utf8_encode v = Inr vb"
  shows "\<exists>mb. utf8_encode (v @ [46] @ str_int ts) = Inr mb"
proof -
  have "\<forall>c\<in>set (v @ [46] @ str_int ts). encodable_char c"
    using utf8_encode_chars [OF assms] str_int_chars [of ts]
    by (auto simp: encodable_char_def)
  then show ?thesis by (rule utf8_encode_total)
qed

lemma unsigned_value_encodable_rev:
  assumes "utf8_encode (v @ [46] @ str_int ts) = Inr mb"
  shows "\<exists>vb. utf8_encode v = Inr vb"
  using utf8_encode_chars [OF assms] by (intro utf8_encode_total) simp

text \<open>The signature, once the three strings are encoded.\<close>

lemma signature_value:
  assumes "utf8_encode (salt s) = Inr sb" "utf8_encode (key s) = Inr kb"
    and "utf8_encode (v @ [46] @ str_int ts) = Inr mb"
  shows "signature s v ts
         = Inr (str_of (b64_encode (hmac_digest
                  (HMAC_new (digest (algorithm s) (sb @ kb)) mb (algorithm s)))))"
  using assms
  by (simp add: signature_def salted_hmac_def Let_def b64_encode_decode_str str_of_def)

lemma signature_Inr:
  assumes "signature s v ts = Inr sg"
  shows "\<exists>sb kb mb. utf8_encode (salt s) = Inr sb \<and> utf8_encode (key s) = Inr kb
           \<and> utf8_encode (v @ [46] @ str_int ts) = Inr mb
           \<and> sg = str_of (b64_encode (hmac_digest
                  (HMAC_new (digest (algorithm s) (sb @ kb)) mb (algorithm s))))"
proof -
  from assms obtain sb kb mb where e: "utf8_encode (salt s) = Inr sb"
    "utf8_encode (key s) = Inr kb" "utf8_encode (v @ [46] @ str_int ts) = Inr mb"
    by (auto simp: signature_def salted_hmac_def Let_def split: sum.splits)
  with signature_value [OF e] assms show ?thesis by simp
qed

lemma sign_Inr:
  assumes "sign s now v topt = Inr tok"
  shows "\<exists>vb bs sg. utf8_encode v = Inr vb
           \<and> int_to_bytes (timestamp_or_now topt now) 8 (byte_order s) = Inr bs
           \<and> signature s v (timestamp_or_now topt now) = Inr sg
           \<and> tok = str_join (sep s) [str_of (b64_encode vb), str_of (b64_encode bs), sg]"
  using assms
  by (auto simp: sign_def Let_def encode_value_def encode_int_def b64_encode_decode_str
      str_of_def split: sum.splits)

lemma sign_value:
  assumes "utf8_encode v = Inr vb"
    and "int_to_bytes (timestamp_or_now topt now) 8 (byte_order s) = Inr bs"
    and "signature s v (timestamp_or_now topt now) = Inr sg"
  shows "sign s now v topt
         = Inr (str_join (sep s) [str_of (b64_encode vb), str_of (b64_encode bs), sg])"
  using assms
  by (simp add: sign_def Let_def encode_value_def encode_int_def b64_encode_decode_str
      str_of_def)

lemma b64_str_class: "c \<in> set (str_of (b64_encode bs)) \<Longrightarrow> unsafe_class c"
  using b64_encode_chars by (auto simp: str_of_def)

lemma utf8_encode_b64_str: "utf8_encode (str_of (b64_encode bs)) = Inr (b64_encode bs)"
  by (simp add: str_of_def b64_encode_encode_str)

lemma split_signed_token:
  fixes a b d :: bytes
  assumes "\<exists>c\<in>set sp. \<not> unsafe_class c"
  defines "parts \<equiv> [str_of (b64_encode a), str_of (b64_encode b), str_of (b64_encode d)]"
  shows "str_split (str_join sp parts) sp = Inr parts"
    and "str_contains sp (str_join sp parts)"
proof -
  from assms(1) obtain c where c: "c \<in> set sp" "\<not> unsafe_class c" by blast
  then have n: "c \<notin> set (str_of (b64_encode a))" "c \<notin> set (str_of (b64_encode b))"
    "c \<notin> set (str_of (b64_encode d))"
    using b64_str_class by blast+
  show "str_split (str_join sp parts) sp = Inr parts"
    unfolding parts_def by (rule str_split_join3 [OF c(1) n])
  show "str_contains sp (str_join sp parts)"
    unfolding parts_def by (rule str_split_join3 [OF c(1) n])
qed

lemma decode_int_b64:
  assumes "int_to_bytes ts 8 (byte_order s) = Inr bs"
  shows "decode_int s (b64_encode bs) = Inr ts"
  using int_from_to_bytes [OF assms] by (simp add: decode_int_def b64_decode_encode)

lemma decode_value_b64:
  assumes "utf8_encode v = Inr vb"
  shows "decode_value (b64_encode vb) = Inr v"
  using utf8_decode_encode [OF assms] by (simp add: decode_value_def b64_decode_encode)

lemma compare_digest_same:
  assumes "utf8_encode x = Inr xb"
  shows "compare_digest x x = Inr True"
  using assms by (simp add: compare_digest_def)

lemma validate_calls_accept:
  assumes "str_contains (sep s) tok"
    and "str_split tok (sep s) = Inr [ev, et, sg]"
    and "utf8_encode et = Inr etb" and "decode_int s etb = Inr ts"
    and "utf8_encode ev = Inr evb" and "decode_value evb = Inr v"
    and "tv ts ma" and "signature s v ts = Inr expected" and "sv sg expected = Inr True"
  shows "validate_calls s tok ma tv sv
         = ([TimestampValidatorCall ts ma, SignatureValidatorCall sg expected], Inr v)"
  using assms by (simp add: validate_calls_def)

text \<open>What a token of \<open>sign\<close> is made of, for a signer that was constructed.\<close>

lemma signed_token:
  assumes "Signer_init k sp bo sl alg = Inr s" "sign s now v topt = Inr tok"
  defines "ts \<equiv> timestamp_or_now topt now"
  shows "\<exists>vb bs sb kb mb.
           utf8_encode v = Inr vb \<and> int_to_bytes ts 8 (byte_order s) = Inr bs
           \<and> utf8_encode (salt s) = Inr sb \<and> utf8_encode k = Inr kb
           \<and> utf8_encode (v @ [46] @ str_int ts) = Inr mb
           \<and> str_contains sp tok
           \<and> str_split tok sp
               = Inr [str_of (b64_encode vb), str_of (b64_encode bs),
                      str_of (b64_encode (hmac_digest
                        (HMAC_new (digest alg (sb @ kb)) mb alg)))]"
proof -
  note i = Signer_init_sep [OF assms(1)]
  from sign_Inr [OF assms(2)] obtain vb bs sg where
    a: "utf8_encode v = Inr vb" "int_to_bytes ts 8 (byte_order s) = Inr bs"
    "signature s v ts = Inr sg"
    "tok = str_join sp [str_of (b64_encode vb), str_of (b64_encode bs), sg]"
    unfolding ts_def i(1) by blast
  from signature_Inr [OF a(3)] obtain sb kb mb where
    b: "utf8_encode (salt s) = Inr sb" "utf8_encode k = Inr kb"
    "utf8_encode (v @ [46] @ str_int ts) = Inr mb"
    "sg = str_of (b64_encode (hmac_digest (HMAC_new (digest alg (sb @ kb)) mb alg)))"
    unfolding i(2,3) by blast
  from split_signed_token [OF i(4)] a(4) b(4)
  have "str_contains sp tok"
    "str_split tok sp = Inr [str_of (b64_encode vb), str_of (b64_encode bs),
       str_of (b64_encode (hmac_digest (HMAC_new (digest alg (sb @ kb)) mb alg)))]"
    by simp_all
  with a(1,2) b(1,2,3) show ?thesis by blast
qed

lemma fixture_strings:
  "key fixture_signer = str_of ''fake''" "salt fixture_signer = default_salt"
  "algorithm fixture_signer = checksum8"
  by (simp_all add: fixture_signer_def)

lemma fixture_encodings:
  "utf8_encode (str_of ''fake'') = Inr ''fake''"
  "utf8_encode default_salt = Inr ''mixbag.security.signing.Signer''"
  "utf8_encode (str_of ''foo'') = Inr ''foo''"
  unfolding default_salt_def by (rule utf8_encode_str_of, simp)+

lemma sign_succeeds:
  assumes "utf8_encode (key s) = Inr kb" "utf8_encode (salt s) = Inr sb"
    and "utf8_encode v = Inr vb"
    and "0 \<le> timestamp_or_now topt now" "timestamp_or_now topt now < 2 ^ 64"
  shows "\<exists>tok. sign s now v topt = Inr tok"
proof -
  let ?ts = "timestamp_or_now topt now"
  have "nat ?ts < 256 ^ 8" using assms(4,5) by simp
  then obtain bs where bs: "int_to_bytes ?ts 8 (byte_order s) = Inr bs"
    using assms(4) by (simp add: int_to_bytes_def)
  from unsigned_value_encodable [OF assms(3)] obtain mb where
    "utf8_encode (v @ [46] @ str_int ?ts) = Inr mb" by blast
  from signature_value [OF assms(2,1) this] sign_value [OF assms(3) bs] show ?thesis
    by blast
qed


section \<open>The signature of an explicit timestamp 0\<close>

lemma checksum8_fields:
  "digest checksum8 bs = [char_of (sum_list (map of_char bs) :: nat)]"
  "block_size checksum8 = 64"
  by (simp_all add: checksum8_def)

lemma derived_key_fixture:
  "digest checksum8 (''mixbag.security.signing.Signer'' @ ''fake'') = [char_of (104 :: nat)]"
  by (simp add: checksum8_fields)

lemma hmac_checksum8_one:
  "b64_encode (hmac_digest (HMAC_new [char_of (104 :: nat)] msg checksum8))
   = b64_encode [char_of ((5848 + (3496 + sum_list (map of_char msg)) mod 256) :: nat)]"
  by (simp add: hmac_digest.simps checksum8_fields xor_byte_def Let_def sum_list_replicate)

lemma signature_bytes_zero:
  "b64_encode (hmac_digest (HMAC_new
      (digest checksum8 (''mixbag.security.signing.Signer'' @ ''fake'')) ''foo.0'' checksum8))
   = ''Ig''"
  unfolding derived_key_fixture hmac_checksum8_one
  by (simp add: codec_eval)

lemma signature_bytes_clock:
  "b64_encode (hmac_digest (HMAC_new
      (digest checksum8 (''mixbag.security.signing.Signer'' @ ''fake'')) ''foo.1700000000''
      checksum8))
   = ''2g''"
  unfolding derived_key_fixture hmac_checksum8_one
  by (simp add: codec_eval)

lemma to_bytes_big_8:
  "to_bytes_big 8 n =
     [char_of (n div 256 div 256 div 256 div 256 div 256 div 256 div 256 mod 256),
      char_of (n div 256 div 256 div 256 div 256 div 256 div 256 mod 256),
      char_of (n div 256 div 256 div 256 div 256 div 256 mod 256),
      char_of (n div 256 div 256 div 256 div 256 mod 256),
      char_of (n div 256 div 256 div 256 mod 256),
      char_of (n div 256 div 256 mod 256),
      char_of (n div 256 mod 256),
      char_of (n mod 256)]"
proof -
  have "(8 :: nat) = Suc (Suc (Suc (Suc (Suc (Suc (Suc (Suc 0)))))))" by simp
  then show ?thesis by (simp only: to_bytes_big.simps append.simps)
qed

lemma encode_clock:
  "int_to_bytes 1700000000 8 Big = Inr (map char_of [0, 0, 0, 0, 101, 83, 241, 0 :: nat])"
  by (simp add: int_to_bytes_def to_bytes_big_8)

lemma b64_clock: "b64_encode (map char_of [0, 0, 0, 0, 101, 83, 241, 0 :: nat]) = ''AAAAAGVT8QA''"
  by (simp add: codec_eval)

lemma b64_foo: "b64_encode ''foo'' = ''Zm9v''"
  by (simp add: codec_eval)

lemma unsigned_value_clock:
  "str_of ''foo'' @ [46] @ str_int 1700000000 = str_of ''foo.1700000000''"
  "str_of ''foo'' @ str_of ''.'' @ str_int 0 = str_of ''foo.0''"
  by (simp_all add: str_of_def str_int_def digits.simps)

theorem sign_signature_segment_counterexample:
  "sign fixture_signer 1700000000 (str_of ''foo'') (Some 0)
     = Inr (str_of ''Zm9v.AAAAAGVT8QA.2g'')
   \<and> str_split (str_of ''Zm9v.AAAAAGVT8QA.2g'') (str_of ''.'')
       = Inr [str_of ''Zm9v'', str_of ''AAAAAGVT8QA'', str_of ''2g'']
   \<and> utf8_encode (salt fixture_signer) = Inr ''mixbag.security.signing.Signer''
   \<and> utf8_encode (key fixture_signer) = Inr ''fake''
   \<and> utf8_encode (str_of ''foo'' @ str_of ''.'' @ str_int 0) = Inr ''foo.0''
   \<and> str_of (b64_encode (hmac_digest (HMAC_new
         (digest checksum8 (''mixbag.security.signing.Signer'' @ ''fake'')) ''foo.0''
         checksum8))) = str_of ''Ig''
   \<and> str_of ''2g'' \<noteq> str_of ''Ig''"
proof -
  have ts: "timestamp_or_now (Some 0) 1700000000 = 1700000000"
    by (simp add: timestamp_or_now_def)
  have sb: "utf8_encode (salt fixture_signer) = Inr ''mixbag.security.signing.Signer''"
    and kb: "utf8_encode (key fixture_signer) = Inr ''fake''"
    by (simp_all add: fixture_strings fixture_encodings)
  have mb: "utf8_encode (str_of ''foo'' @ [46] @ str_int 1700000000) = Inr ''foo.1700000000''"
    unfolding unsigned_value_clock by (rule utf8_encode_str_of) simp
  have m0: "utf8_encode (str_of ''foo'' @ str_of ''.'' @ str_int 0) = Inr ''foo.0''"
    unfolding unsigned_value_clock by (rule utf8_encode_str_of) simp
  have sg: "signature fixture_signer (str_of ''foo'') 1700000000 = Inr (str_of ''2g'')"
    unfolding signature_value [OF sb kb mb] fixture_strings signature_bytes_clock by (rule refl)
  have bs: "int_to_bytes (timestamp_or_now (Some 0) 1700000000) 8 (byte_order fixture_signer)
      = Inr (map char_of [0, 0, 0, 0, 101, 83, 241, 0 :: nat])"
    unfolding ts fixture_fields by (rule encode_clock)
  have "sign fixture_signer 1700000000 (str_of ''foo'') (Some 0)
      = Inr (str_join (sep fixture_signer)
          [str_of (b64_encode ''foo''),
           str_of (b64_encode (map char_of [0, 0, 0, 0, 101, 83, 241, 0 :: nat])),
           str_of ''2g''])"
    by (rule sign_value [OF fixture_encodings(3) bs]) (simp only: ts sg)
  then have 1: "sign fixture_signer 1700000000 (str_of ''foo'') (Some 0)
      = Inr (str_of ''Zm9v.AAAAAGVT8QA.2g'')"
    unfolding b64_foo b64_clock by (simp add: fixture_fields str_of_def)
  have 2: "str_split (str_of ''Zm9v.AAAAAGVT8QA.2g'') (str_of ''.'')
      = Inr [str_of ''Zm9v'', str_of ''AAAAAGVT8QA'', str_of ''2g'']"
    by (simp add: codec_eval)
  have 3: "str_of ''2g'' \<noteq> str_of ''Ig''"
    by (simp add: str_of_def)
  from 1 2 sb kb m0 3 show ?thesis
    by (simp only: signature_bytes_zero simp_thms)
qed

text \<open>
  C2, as the code has it. For every value, key, salt and digest algorithm \<open>A\<close>, the third
  segment of a token that \<open>sign\<close> produces is the padding-stripped base64url encoding of
  the HMAC, with digest \<open>A\<close>, whose key is \<open>A(UTF8(salt) ++ UTF8(key))\<close> and whose message
  is the UTF-8 encoding of the value, a dot and the decimal string of \<open>t\<close>: the plain
  value and timestamp, not the token's encoded segments. Here \<open>t\<close> is the timestamp that
  the token carries in its second segment: the timestamp given to \<open>sign\<close> when one is
  given and is not \<open>0\<close>, and the clock's reading when none is given or \<open>0\<close> is given.
\<close>

theorem sign_signature_segment:
  assumes "Signer_init k sp bo sl alg = Inr s" and "sign s now v topt = Inr tok"
  shows "\<exists>salt_bytes key_bytes msg p1 p2 p2b t.
           utf8_encode (salt s) = Inr salt_bytes \<and> utf8_encode k = Inr key_bytes
           \<and> utf8_encode (v @ str_of ''.'' @ str_int t) = Inr msg
           \<and> str_split tok sp
               = Inr [p1, p2, str_of (b64_encode (hmac_digest
                   (HMAC_new (digest alg (salt_bytes @ key_bytes)) msg alg)))]
           \<and> utf8_encode p2 = Inr p2b \<and> decode_int s p2b = Inr t
           \<and> t = timestamp_or_now topt now"
proof -
  from signed_token [OF assms] obtain vb bs sb kb mb where
    a: "int_to_bytes (timestamp_or_now topt now) 8 (byte_order s) = Inr bs"
    "utf8_encode (salt s) = Inr sb" "utf8_encode k = Inr kb"
    "utf8_encode (v @ [46] @ str_int (timestamp_or_now topt now)) = Inr mb"
    "str_split tok sp
      = Inr [str_of (b64_encode vb), str_of (b64_encode bs),
             str_of (b64_encode (hmac_digest (HMAC_new (digest alg (sb @ kb)) mb alg)))]"
    by blast
  have d: "str_of ''.'' = [46]" by (simp add: str_of_def)
  from a decode_int_b64 [OF a(1)] utf8_encode_b64_str [of bs] show ?thesis
    unfolding d by blast
qed

theorem sign_signature_segment_witness:
  "\<exists>tok p1 p2 p2b msg.
     sign fixture_signer 1700000000 (str_of ''foo'') (Some 1) = Inr tok
     \<and> utf8_encode (str_of ''foo'' @ str_of ''.'' @ str_int 1) = Inr msg
     \<and> str_split tok (str_of ''.'')
         = Inr [p1, p2, str_of (b64_encode (hmac_digest
             (HMAC_new (digest checksum8 (''mixbag.security.signing.Signer'' @ ''fake''))
                msg checksum8)))]
     \<and> utf8_encode p2 = Inr p2b \<and> decode_int fixture_signer p2b = Inr 1"
proof -
  have ts: "timestamp_or_now (Some 1) 1700000000 = 1"
    by (simp add: timestamp_or_now_def)
  have "\<exists>tok. sign fixture_signer 1700000000 (str_of ''foo'') (Some 1) = Inr tok"
    by (rule sign_succeeds [where kb = "''fake''" and vb = "''foo''"
          and sb = "''mixbag.security.signing.Signer''"])
      (simp_all add: fixture_strings fixture_encodings ts)
  then obtain tok where tok: "sign fixture_signer 1700000000 (str_of ''foo'') (Some 1) = Inr tok"
    by blast
  from sign_signature_segment [OF fixture_signer_init tok] obtain sb kb msg p1 p2 p2b where
    f: "utf8_encode (salt fixture_signer) = Inr sb" "utf8_encode (str_of ''fake'') = Inr kb"
    "utf8_encode (str_of ''foo'' @ str_of ''.'' @ str_int 1) = Inr msg"
    "str_split tok (str_of ''.'')
      = Inr [p1, p2, str_of (b64_encode (hmac_digest
          (HMAC_new (digest checksum8 (sb @ kb)) msg checksum8)))]"
    "utf8_encode p2 = Inr p2b" "decode_int fixture_signer p2b = Inr 1"
    unfolding ts by blast
  have sb: "sb = ''mixbag.security.signing.Signer''"
    using f(1) by (simp add: fixture_strings fixture_encodings)
  have kb: "kb = ''fake''"
    using f(2) by (simp add: fixture_encodings)
  from tok f(3-6) show ?thesis
    unfolding sb kb by blast
qed

text \<open>
  C9. An explicit timestamp of \<open>0\<close> is taken as absent: \<open>sign(v, 0)\<close> is \<open>sign(v)\<close>, and
  the token carries the clock's reading. With a clock that does not read \<open>0\<close>, no token
  that \<open>sign\<close> produces carries the timestamp \<open>0\<close>.
\<close>

theorem sign_never_embeds_zero:
  "sign s now v (Some 0) = sign s now v None
   \<and> (Signer_init k sp bo sl alg = Inr s \<and> now \<noteq> 0 \<and> sign s now v topt = Inr tok
        \<longrightarrow> (\<exists>p1 p2 p3 p2b t. str_split tok sp = Inr [p1, p2, p3]
               \<and> utf8_encode p2 = Inr p2b \<and> decode_int s p2b = Inr t \<and> t \<noteq> 0
               \<and> (topt = Some 0 \<longrightarrow> t = now)))"
proof (intro conjI impI)
  show "sign s now v (Some 0) = sign s now v None"
    by (simp add: sign_def timestamp_or_now_def)
next
  assume a: "Signer_init k sp bo sl alg = Inr s \<and> now \<noteq> 0 \<and> sign s now v topt = Inr tok"
  let ?t = "timestamp_or_now topt now"
  from a signed_token [of k sp bo sl alg s now v topt tok] obtain vb bs p3 where
    b: "int_to_bytes ?t 8 (byte_order s) = Inr bs"
    "str_split tok sp = Inr [str_of (b64_encode vb), str_of (b64_encode bs), p3]"
    by blast
  have "?t \<noteq> 0" "topt = Some 0 \<longrightarrow> ?t = now"
    using a by (auto simp: timestamp_or_now_def split: option.splits)
  with b(2) decode_int_b64 [OF b(1)] utf8_encode_b64_str [of bs]
  show "\<exists>p1 p2 p3 p2b t. str_split tok sp = Inr [p1, p2, p3]
               \<and> utf8_encode p2 = Inr p2b \<and> decode_int s p2b = Inr t \<and> t \<noteq> 0
               \<and> (topt = Some 0 \<longrightarrow> t = now)"
    by blast
qed

theorem sign_never_embeds_zero_witness:
  "\<exists>tok p1 p2 p3 p2b.
     sign fixture_signer 1700000000 (str_of ''foo'') (Some 0) = Inr tok
     \<and> sign fixture_signer 1700000000 (str_of ''foo'') None = Inr tok
     \<and> str_split tok (str_of ''.'') = Inr [p1, p2, p3]
     \<and> utf8_encode p2 = Inr p2b \<and> decode_int fixture_signer p2b = Inr 1700000000"
proof -
  have ts: "timestamp_or_now (Some 0) 1700000000 = 1700000000"
    by (simp add: timestamp_or_now_def)
  have "\<exists>tok. sign fixture_signer 1700000000 (str_of ''foo'') (Some 0) = Inr tok"
    by (rule sign_succeeds [where kb = "''fake''" and vb = "''foo''"
          and sb = "''mixbag.security.signing.Signer''"])
      (simp_all add: fixture_strings fixture_encodings ts)
  then obtain tok where tok: "sign fixture_signer 1700000000 (str_of ''foo'') (Some 0) = Inr tok"
    by blast
  have n: "(1700000000 :: int) \<noteq> 0" by simp
  note t = sign_never_embeds_zero [of fixture_signer 1700000000 "str_of ''foo''"
      "str_of ''fake''" "str_of ''.''" None None checksum8 "Some 0" tok]
  from t fixture_signer_init n tok obtain p1 p2 p3 p2b t where
    f: "str_split tok (str_of ''.'') = Inr [p1, p2, p3]" "utf8_encode p2 = Inr p2b"
    "decode_int fixture_signer p2b = Inr t" "t = 1700000000"
    by blast
  from t tok have "sign fixture_signer 1700000000 (str_of ''foo'') None = Inr tok"
    by simp
  with tok f(1,2,3) show ?thesis
    unfolding f(4) by blast
qed

section \<open>Round trip\<close>

theorem sign_validate_round_trip_counterexample:
  "Signer_init (str_of ''fake'') (str_of ''.'') None None checksum8 = Inr fixture_signer
   \<and> sign fixture_signer 1700000000 [0xD800] (Some 1) = Inl UnicodeEncodeError"
  by (simp add: fixture_signer_init sign_def encode_value_def encodable_char_def)

text \<open>
  C1, as the code has it. For every Signer whose construction succeeds and whose key and
  salt can be encoded in UTF-8, every string \<open>v\<close> that can be encoded in UTF-8 (one
  without a surrogate code point), and every explicit timestamp \<open>t\<close> with
  \<open>0 \<le> t < 2 ^ 64\<close> (the clock's reading being in that range too when \<open>t\<close> is \<open>0\<close>, since
  the clock then replaces it), \<open>sign\<close> returns a token and \<open>validate\<close> of that token, with
  no \<open>max_age\<close> and the default validators, returns exactly \<open>v\<close>, whenever it is called.
\<close>

theorem sign_validate_round_trip:
  assumes "Signer_init k sp bo sl alg = Inr s"
    and "utf8_encode k = Inr kb" and "utf8_encode (salt s) = Inr sb"
    and "utf8_encode v = Inr vb"
    and "0 \<le> t" and "t < 2 ^ 64"
    and "t = 0 \<Longrightarrow> 0 \<le> now \<and> now < 2 ^ 64"
  shows "\<exists>tok. sign s now v (Some t) = Inr tok
           \<and> validate s tok None (is_valid_timestamp now') compare_digest = Inr v"
proof -
  note i = Signer_init_sep [OF assms(1)]
  let ?t = "timestamp_or_now (Some t) now"
  have r: "0 \<le> ?t" "?t < 2 ^ 64"
    using assms(5,6,7) by (auto simp: timestamp_or_now_def)
  from sign_succeeds [OF _ assms(3,4) r] assms(2) i(2)
  obtain tok where tok: "sign s now v (Some t) = Inr tok" by auto
  from signed_token [OF assms(1) tok] assms(4) obtain bs sb' kb' mb where
    a: "int_to_bytes ?t 8 (byte_order s) = Inr bs"
    "utf8_encode (salt s) = Inr sb'" "utf8_encode k = Inr kb'"
    "utf8_encode (v @ [46] @ str_int ?t) = Inr mb"
    "str_contains sp tok"
    "str_split tok sp
      = Inr [str_of (b64_encode vb), str_of (b64_encode bs),
             str_of (b64_encode (hmac_digest (HMAC_new (digest alg (sb' @ kb')) mb alg)))]"
    by auto
  let ?sg = "str_of (b64_encode (hmac_digest (HMAC_new (digest alg (sb' @ kb')) mb alg)))"
  have sg: "signature s v ?t = Inr ?sg"
    using signature_value [of s sb' kb' v ?t mb] a(2,3,4) i(2,3) by simp
  have "validate_calls s tok None (is_valid_timestamp now') compare_digest
        = ([TimestampValidatorCall ?t None, SignatureValidatorCall ?sg ?sg], Inr v)"
  proof (rule validate_calls_accept)
    show "str_contains (sep s) tok" using a(5) i(1) by simp
    show "str_split tok (sep s)
      = Inr [str_of (b64_encode vb), str_of (b64_encode bs), ?sg]"
      using a(6) i(1) by simp
    show "utf8_encode (str_of (b64_encode bs)) = Inr (b64_encode bs)"
      by (rule utf8_encode_b64_str)
    show "decode_int s (b64_encode bs) = Inr ?t"
      by (rule decode_int_b64 [OF a(1)])
    show "utf8_encode (str_of (b64_encode vb)) = Inr (b64_encode vb)"
      by (rule utf8_encode_b64_str)
    show "decode_value (b64_encode vb) = Inr v"
      by (rule decode_value_b64 [OF assms(4)])
    show "is_valid_timestamp now' ?t None"
      by (simp add: is_valid_timestamp_def)
    show "signature s v ?t = Inr ?sg" by (rule sg)
    show "compare_digest ?sg ?sg = Inr True"
      by (rule compare_digest_same [OF utf8_encode_b64_str])
  qed
  with tok show ?thesis by (simp add: validate_def)
qed

theorem sign_validate_round_trip_witness:
  "\<exists>tok. sign fixture_signer 1700000000 (str_of ''foo'') (Some 1) = Inr tok
     \<and> validate fixture_signer tok None (is_valid_timestamp 1700000100) compare_digest
         = Inr (str_of ''foo'')"
proof -
  have s: "utf8_encode (salt fixture_signer) = Inr ''mixbag.security.signing.Signer''"
    by (simp add: fixture_strings fixture_encodings)
  have t: "(0 :: int) \<le> 1" "(1 :: int) < 2 ^ 64"
    "(1 :: int) = 0 \<Longrightarrow> (0 :: int) \<le> 1700000000 \<and> (1700000000 :: int) < 2 ^ 64"
    by simp_all
  show ?thesis
    by (rule sign_validate_round_trip [OF fixture_signer_init fixture_encodings(1) s
          fixture_encodings(3) t])
qed

end
